theory Spec2Isabelle
  imports Complex_Main "HOL-Library.Log_Nat"
begin

section \<open>JavaScript numbers\<close>

text \<open>
  The scanner (\<^verbatim>\<open>src/lib/cci.ts\<close>) computes on JavaScript numbers, the IEEE 754
  double-precision values. A number is modelled as not-a-number, one of the two
  infinities, or a finite value, a real. Every finite result of an addition, a
  multiplication or a division is rounded to the nearest double, ties to even
  (\<open>fl\<close>): it overflows to an infinity from \<open>2^1024 - 2^970\<close> on, and below
  \<open>2^-1022\<close> it is a multiple of \<open>2^-1074\<close>, so that a small product underflows to
  \<open>0\<close>. The two zeros are one value, so a division by zero takes the sign of its
  dividend. Not-a-number and the infinities propagate as in JavaScript: every comparison
  with not-a-number is false, \<^verbatim>\<open>Infinity - Infinity\<close>, \<^verbatim>\<open>0 * Infinity\<close>,
  \<^verbatim>\<open>0 / 0\<close> and \<^verbatim>\<open>Infinity / Infinity\<close> are not-a-number. A decimal literal that
  is not a double (\<^verbatim>\<open>0.015\<close>, \<^verbatim>\<open>1.2\<close>) is the double nearest to it. Periods,
  lookbacks and array indices are natural numbers.
\<close>

datatype number = NaN | NInf | Fin real | PInf

subsection \<open>Rounding to the nearest double\<close>

text \<open>
  \<open>rne\<close> rounds a real to the nearest integer, ties to even. \<open>binade a\<close> is the
  exponent \<open>e\<close> with \<open>2^e \<le> a < 2^(e + 1)\<close>, and \<open>e_min\<close> for the subnormal
  \<open>a < 2^e_min\<close>; the doubles of that binade are the multiples of \<open>2^(e - 52)\<close>.
  \<open>nearest a\<close> is the nearest of them to \<open>a > 0\<close>, and \<open>fl_pos\<close> turns it into
  \<open>Infinity\<close> when it reaches \<open>2^(e_max + 1)\<close>.
\<close>

definition rne :: "real \<Rightarrow> int" where
  "rne q =
     (let f = \<lfloor>q\<rfloor>; r = q - of_int f
      in if r < 1 / 2 then f else if 1 / 2 < r then f + 1 else if even f then f else f + 1)"

definition e_min :: int where
  "e_min = - 1022"

definition e_max :: int where
  "e_max = 1023"

definition binade :: "real \<Rightarrow> int" where
  "binade a =
     (if 1 \<le> a then bitlen \<lfloor>a\<rfloor> - 1
      else max (- bitlen (\<lceil>1 / a\<rceil> - 1)) e_min)"

definition nearest :: "real \<Rightarrow> real" where
  "nearest a = (let u = 2 powi (binade a - 52) in of_int (rne (a / u)) * u)"

definition fl_pos :: "real \<Rightarrow> number" where
  "fl_pos a =
     (if a = 0 then Fin 0
      else if 2 powi (e_max + 1) \<le> nearest a then PInf else Fin (nearest a))"

subsection \<open>Arithmetic and comparisons\<close>

fun isNaN :: "number \<Rightarrow> bool" where
  "isNaN NaN = True"
| "isNaN _ = False"

fun isFinite :: "number \<Rightarrow> bool" where
  "isFinite (Fin _) = True"
| "isFinite _ = False"

instantiation number :: uminus
begin

fun uminus_number :: "number \<Rightarrow> number" where
  "uminus_number NaN = NaN"
| "uminus_number NInf = PInf"
| "uminus_number (Fin a) = Fin (- a)"
| "uminus_number PInf = NInf"

instance ..

end

definition fl :: "real \<Rightarrow> number" where
  "fl x = (if x < 0 then - fl_pos (- x) else fl_pos x)"

instantiation number :: "{plus, minus, times, inverse, abs, ord}"
begin

fun plus_number :: "number \<Rightarrow> number \<Rightarrow> number" where
  "plus_number (Fin a) (Fin b) = fl (a + b)"
| "plus_number NaN _ = NaN"
| "plus_number _ NaN = NaN"
| "plus_number PInf NInf = NaN"
| "plus_number NInf PInf = NaN"
| "plus_number PInf _ = PInf"
| "plus_number _ PInf = PInf"
| "plus_number NInf _ = NInf"
| "plus_number _ NInf = NInf"

definition minus_number :: "number \<Rightarrow> number \<Rightarrow> number" where
  "minus_number a b = a + (- b)"

fun times_number :: "number \<Rightarrow> number \<Rightarrow> number" where
  "times_number (Fin a) (Fin b) = fl (a * b)"
| "times_number NaN _ = NaN"
| "times_number _ NaN = NaN"
| "times_number PInf (Fin b) = (if b = 0 then NaN else if 0 < b then PInf else NInf)"
| "times_number NInf (Fin b) = (if b = 0 then NaN else if 0 < b then NInf else PInf)"
| "times_number (Fin a) PInf = (if a = 0 then NaN else if 0 < a then PInf else NInf)"
| "times_number (Fin a) NInf = (if a = 0 then NaN else if 0 < a then NInf else PInf)"
| "times_number PInf PInf = PInf"
| "times_number NInf NInf = PInf"
| "times_number PInf NInf = NInf"
| "times_number NInf PInf = NInf"

fun divide_number :: "number \<Rightarrow> number \<Rightarrow> number" where
  "divide_number (Fin a) (Fin b) =
     (if b = 0 then (if a = 0 then NaN else if 0 < a then PInf else NInf) else fl (a / b))"
| "divide_number NaN _ = NaN"
| "divide_number _ NaN = NaN"
| "divide_number (Fin a) _ = Fin 0"
| "divide_number PInf (Fin b) = (if b < 0 then NInf else PInf)"
| "divide_number NInf (Fin b) = (if b < 0 then PInf else NInf)"
| "divide_number _ _ = NaN"

definition inverse_number :: "number \<Rightarrow> number" where
  "inverse_number a = divide (Fin 1) a"

fun abs_number :: "number \<Rightarrow> number" where
  "abs_number NaN = NaN"
| "abs_number (Fin a) = Fin \<bar>a\<bar>"
| "abs_number _ = PInf"

fun less_number :: "number \<Rightarrow> number \<Rightarrow> bool" where
  "less_number (Fin a) (Fin b) = (a < b)"
| "less_number NaN _ = False"
| "less_number _ NaN = False"
| "less_number PInf _ = False"
| "less_number _ NInf = False"
| "less_number _ _ = True"

definition less_eq_number :: "number \<Rightarrow> number \<Rightarrow> bool" where
  "less_eq_number a b = (a < b \<or> (a = b \<and> \<not> isNaN a))"

instance ..

end

text \<open>\<^verbatim>\<open>Math.min\<close> of two arguments: not-a-number if either is.\<close>

definition Math_min :: "number \<Rightarrow> number \<Rightarrow> number" where
  "Math_min a b = (if isNaN a \<or> isNaN b then NaN else if a < b then a else b)"

section \<open>Smoothing primitives\<close>

text \<open>
  \<^verbatim>\<open>ema\<close>: the body of the loop pushes one element onto \<open>result\<close> at every index
  \<open>i\<close>; it reads \<open>values[i]\<close> and \<open>result[i - 1]\<close>, both inside their arrays.
\<close>

definition ema_step :: "number list \<Rightarrow> number \<Rightarrow> number list \<Rightarrow> nat \<Rightarrow> number list" where
  "ema_step values multiplier result i =
     (if i = 0 then result @ [values ! i]
      else if isNaN (result ! (i - 1)) then result @ [values ! i]
      else result @ [(values ! i - result ! (i - 1)) * multiplier + result ! (i - 1)])"

definition ema :: "number list \<Rightarrow> nat \<Rightarrow> number list" where
  "ema values period =
     (let multiplier = Fin 2 / (Fin (real period) + Fin 1)
      in foldl (ema_step values multiplier) [] [0..<length values])"

text \<open>
  \<^verbatim>\<open>Array.prototype.slice(start, end)\<close>: a negative bound counts from the end of the
  array, a bound beyond the array is the length, and the slice is empty when the start is
  not before the end.
\<close>

definition array_slice :: "'a list \<Rightarrow> int \<Rightarrow> int \<Rightarrow> 'a list" where
  "array_slice xs start end' =
     (let len = int (length xs);
          k = (if start < 0 then max (len + start) 0 else min start len);
          final = (if end' < 0 then max (len + end') 0 else min end' len)
      in take (nat (final - k)) (drop (nat k) xs))"

text \<open>
  \<^verbatim>\<open>sma\<close> and \<^verbatim>\<open>meanDeviation\<close> push one element per index, computed from the
  input alone, so each loop is a map over the indices.
  \<^verbatim>\<open>slice.reduce((a, b) => a + b, 0)\<close> is a left fold from \<open>0\<close>.
\<close>

definition sma :: "number list \<Rightarrow> nat \<Rightarrow> number list" where
  "sma values period =
     map (\<lambda>i. if int i < int period - 1 then NaN
              else let slice = array_slice values (int i - int period + 1) (int i + 1)
                   in foldl (\<lambda>a b. a + b) (Fin 0) slice / Fin (real period))
         [0..<length values]"

definition meanDeviation :: "number list \<Rightarrow> nat \<Rightarrow> number list" where
  "meanDeviation values period =
     map (\<lambda>i. if int i < int period - 1 then NaN
              else let slice = array_slice values (int i - int period + 1) (int i + 1);
                       mean = foldl (\<lambda>a b. a + b) (Fin 0) slice / Fin (real period);
                       deviation = foldl (\<lambda>a b. a + \<bar>b - mean\<bar>) (Fin 0) slice / Fin (real period)
                   in deviation)
         [0..<length values]"

section \<open>Indicator calculator\<close>

text \<open>
  A bar of the price series. The timestamp is a count of milliseconds, an integer; the
  prices and the volume are numbers.
\<close>

record Bar =
  bar_o :: number
  bar_h :: number
  bar_l :: number
  bar_c :: number
  bar_v :: number
  bar_t :: int

record Indicators =
  cci :: "number list"
  momentum :: "number list"
  volume :: "number list"
  avgVolume :: "number list"

definition hlc3 :: "Bar list \<Rightarrow> number list" where
  "hlc3 bars = map (\<lambda>b. (bar_h b + bar_l b + bar_c b) / Fin 3) bars"

text \<open>
  The local \<^verbatim>\<open>rawCCI\<close> of \<^verbatim>\<open>calculateCCI\<close>. \<open>tpSma\<close> and \<open>meanDev\<close> have the
  length of \<open>hlc3\<close>, so every read is inside its array.
\<close>

definition rawCCI :: "Bar list \<Rightarrow> nat \<Rightarrow> number list" where
  "rawCCI bars period =
     (let tpSma = sma (hlc3 bars) period;
          meanDev = meanDeviation (hlc3 bars) period
      in map (\<lambda>i. let tp = hlc3 bars ! i
                  in if isNaN (tpSma ! i) \<or> isNaN (meanDev ! i) \<or> meanDev ! i = Fin 0 then NaN
                     else (tp - tpSma ! i) / (fl 0.015 * meanDev ! i))
             [0..<length (hlc3 bars)])"

definition calculateCCI :: "Bar list \<Rightarrow> nat \<Rightarrow> nat \<Rightarrow> Indicators" where
  "calculateCCI bars period smoothing =
     (let volume' = map bar_v bars;
          cci1 = ema (rawCCI bars period) smoothing;
          cci' = ema cci1 2;
          momentum' = map (\<lambda>i. if i = 0 \<or> isNaN (cci' ! i) \<or> isNaN (cci' ! (i - 1)) then NaN
                                else cci' ! i - cci' ! (i - 1))
                          [0..<length cci'];
          avgVolume' = sma volume' 20
      in \<lparr>cci = cci', momentum = momentum', volume = volume', avgVolume = avgVolume'\<rparr>)"

section \<open>Pivot detector\<close>

record Pivots =
  lows :: "nat list"
  highs :: "nat list"

text \<open>
  The two inner loops of \<^verbatim>\<open>findPivots\<close> update the pair of flags
  \<open>(isLow, isHigh)\<close> for \<open>j = 1, \<dots>, lookback\<close>; the outer loop runs over
  \<open>i = lookbackLeft, \<dots>, values.length - lookbackRight - 1\<close> (no index when the bound
  is not above \<open>lookbackLeft\<close>), so \<open>i - j\<close> and \<open>i + j\<close> stay inside the array.
\<close>

definition pivot_left :: "number list \<Rightarrow> nat \<Rightarrow> bool \<times> bool \<Rightarrow> nat \<Rightarrow> bool \<times> bool" where
  "pivot_left values i flags j =
     (case flags of (isLow, isHigh) \<Rightarrow>
        (if isNaN (values ! (i - j)) \<or> values ! i > values ! (i - j) then False else isLow,
         if isNaN (values ! (i - j)) \<or> values ! i < values ! (i - j) then False else isHigh))"

definition pivot_right :: "number list \<Rightarrow> nat \<Rightarrow> bool \<times> bool \<Rightarrow> nat \<Rightarrow> bool \<times> bool" where
  "pivot_right values i flags j =
     (case flags of (isLow, isHigh) \<Rightarrow>
        (if isNaN (values ! (i + j)) \<or> values ! i > values ! (i + j) then False else isLow,
         if isNaN (values ! (i + j)) \<or> values ! i < values ! (i + j) then False else isHigh))"

definition pivot_step :: "number list \<Rightarrow> nat \<Rightarrow> nat \<Rightarrow> Pivots \<Rightarrow> nat \<Rightarrow> Pivots" where
  "pivot_step values lookbackLeft lookbackRight p i =
     (if isNaN (values ! i) then p
      else
        (case foldl (pivot_right values i)
                (foldl (pivot_left values i) (True, True) [1..<Suc lookbackLeft])
                [1..<Suc lookbackRight]
         of (isLow, isHigh) \<Rightarrow>
           \<lparr>lows = (if isLow then lows p @ [i] else lows p),
            highs = (if isHigh then highs p @ [i] else highs p)\<rparr>))"

definition findPivots :: "number list \<Rightarrow> nat \<Rightarrow> nat \<Rightarrow> Pivots" where
  "findPivots values lookbackLeft lookbackRight =
     foldl (pivot_step values lookbackLeft lookbackRight) \<lparr>lows = [], highs = []\<rparr>
       [lookbackLeft..<length values - lookbackRight]"

text \<open>
  The flags \<open>isLow\<close> and \<open>isHigh\<close> at the end of the body of the outer loop, for an
  index \<open>i\<close> of the loop, as conditions on the series.
\<close>

definition low_at :: "number list \<Rightarrow> nat \<Rightarrow> nat \<Rightarrow> nat \<Rightarrow> bool" where
  "low_at values lookbackLeft lookbackRight i =
     (\<not> isNaN (values ! i) \<and>
      (\<forall>j\<in>set [1..<Suc lookbackLeft]. \<not> isNaN (values ! (i - j)) \<and> \<not> values ! i > values ! (i - j)) \<and>
      (\<forall>j\<in>set [1..<Suc lookbackRight]. \<not> isNaN (values ! (i + j)) \<and> \<not> values ! i > values ! (i + j)))"

definition high_at :: "number list \<Rightarrow> nat \<Rightarrow> nat \<Rightarrow> nat \<Rightarrow> bool" where
  "high_at values lookbackLeft lookbackRight i =
     (\<not> isNaN (values ! i) \<and>
      (\<forall>j\<in>set [1..<Suc lookbackLeft]. \<not> isNaN (values ! (i - j)) \<and> \<not> values ! i < values ! (i - j)) \<and>
      (\<forall>j\<in>set [1..<Suc lookbackRight]. \<not> isNaN (values ! (i + j)) \<and> \<not> values ! i < values ! (i + j)))"

section \<open>Strength scorer\<close>

definition calcStrength :: "number \<Rightarrow> number \<Rightarrow> bool \<Rightarrow> bool \<Rightarrow> bool \<Rightarrow> number" where
  "calcStrength priceDiff cciDiff isExtreme highVolume momentumConfirm =
     (let priceScore = Math_min (Fin 3.0) (\<bar>priceDiff\<bar> * Fin 100);
          cciScore = Math_min (Fin 3.0) (\<bar>cciDiff\<bar> / Fin 30);
          extremeBonus = (if isExtreme then Fin 1.5 else Fin 0);
          volumeBonus = (if highVolume then Fin 1.0 else Fin 0);
          momentumBonus = (if momentumConfirm then Fin 1.0 else Fin 0)
      in Math_min (Fin 10)
           (priceScore + cciScore + extremeBonus + volumeBonus + momentumBonus))"

datatype Quality = STRONG | MODERATE | WEAK

definition getQuality :: "number \<Rightarrow> Quality" where
  "getQuality s = (if s \<ge> Fin 7 then STRONG else if s \<ge> Fin 5 then MODERATE else WEAK)"

section \<open>Divergence classifier and recency filter\<close>

datatype DivergenceType = REG_BULL | REG_BEAR | HID_BULL | HID_BEAR | BREW_BULL | BREW_BEAR

record Divergence =
  dtype :: DivergenceType
  strength :: number
  quality :: Quality
  cciValue :: number
  price :: number
  timestamp :: int
  volumeConfirmed :: bool
  momentumConfirmed :: bool

text \<open>
  Reading a property of \<^verbatim>\<open>bars[k]\<close> with \<open>k\<close> outside the array raises a
  \<^verbatim>\<open>TypeError\<close>. Reading a number array outside its bounds gives \<^verbatim>\<open>undefined\<close>, which
  every comparison and arithmetic operation treats as not-a-number.
\<close>

datatype error = TypeError

definition num_at :: "number list \<Rightarrow> nat \<Rightarrow> number" where
  "num_at xs k = (if k < length xs then xs ! k else NaN)"

definition mkDivergence ::
  "DivergenceType \<Rightarrow> number \<Rightarrow> number \<Rightarrow> number \<Rightarrow> int \<Rightarrow> bool \<Rightarrow> bool \<Rightarrow> Divergence" where
  "mkDivergence ty s currCCI currPrice ts highVol momConfirm =
     \<lparr>dtype = ty, strength = s, quality = getQuality s, cciValue = currCCI,
      price = currPrice, timestamp = ts, volumeConfirmed = highVol,
      momentumConfirmed = momConfirm\<rparr>"

text \<open>The body of the loop over the pivot lows (bullish divergences), at index \<open>i\<close>.\<close>

definition low_step ::
  "Bar list \<Rightarrow> number list \<Rightarrow> number list \<Rightarrow> number list \<Rightarrow> number list \<Rightarrow> number \<Rightarrow>
   nat list \<Rightarrow> Divergence list \<Rightarrow> nat \<Rightarrow> error + Divergence list" where
  "low_step bars cci' momentum' volume' avgVolume' minStrength cciLows divergences i =
     (let currIdx = cciLows ! i;
          prevIdx = cciLows ! (i - 1);
          barDiff = int currIdx - int prevIdx
      in if barDiff < 5 \<or> barDiff > 60 then Inr divergences
         else if length bars \<le> currIdx \<or> length bars \<le> prevIdx then Inl TypeError
         else
           let currCCI = num_at cci' currIdx;
               prevCCI = num_at cci' prevIdx;
               currPrice = bar_l (bars ! currIdx);
               prevPrice = bar_l (bars ! prevIdx);
               isExtreme = currCCI < Fin (- 100);
               highVol = num_at volume' currIdx > num_at avgVolume' currIdx * fl 1.2;
               momConfirm = num_at momentum' currIdx > Fin 0;
               divs1 =
                 (if currPrice < prevPrice \<and> currCCI > prevCCI then
                    let s = calcStrength ((currPrice - prevPrice) / prevPrice)
                              (currCCI - prevCCI) isExtreme highVol momConfirm
                    in if s \<ge> minStrength
                       then divergences @ [mkDivergence REG_BULL s currCCI currPrice
                                             (bar_t (bars ! currIdx)) highVol momConfirm]
                       else divergences
                  else divergences);
               divs2 =
                 (if currPrice > prevPrice \<and> currCCI < prevCCI then
                    let s = calcStrength ((currPrice - prevPrice) / prevPrice)
                              (prevCCI - currCCI) isExtreme highVol momConfirm
                    in if s \<ge> minStrength
                       then divs1 @ [mkDivergence HID_BULL s currCCI currPrice
                                       (bar_t (bars ! currIdx)) highVol momConfirm]
                       else divs1
                  else divs1)
           in Inr divs2)"

text \<open>The body of the loop over the pivot highs (bearish divergences), at index \<open>i\<close>.\<close>

definition high_step ::
  "Bar list \<Rightarrow> number list \<Rightarrow> number list \<Rightarrow> number list \<Rightarrow> number list \<Rightarrow> number \<Rightarrow>
   nat list \<Rightarrow> Divergence list \<Rightarrow> nat \<Rightarrow> error + Divergence list" where
  "high_step bars cci' momentum' volume' avgVolume' minStrength cciHighs divergences i =
     (let currIdx = cciHighs ! i;
          prevIdx = cciHighs ! (i - 1);
          barDiff = int currIdx - int prevIdx
      in if barDiff < 5 \<or> barDiff > 60 then Inr divergences
         else if length bars \<le> currIdx \<or> length bars \<le> prevIdx then Inl TypeError
         else
           let currCCI = num_at cci' currIdx;
               prevCCI = num_at cci' prevIdx;
               currPrice = bar_h (bars ! currIdx);
               prevPrice = bar_h (bars ! prevIdx);
               isExtreme = currCCI > Fin 100;
               highVol = num_at volume' currIdx > num_at avgVolume' currIdx * fl 1.2;
               momConfirm = num_at momentum' currIdx < Fin 0;
               divs1 =
                 (if currPrice > prevPrice \<and> currCCI < prevCCI then
                    let s = calcStrength ((currPrice - prevPrice) / prevPrice)
                              (prevCCI - currCCI) isExtreme highVol momConfirm
                    in if s \<ge> minStrength
                       then divergences @ [mkDivergence REG_BEAR s currCCI currPrice
                                             (bar_t (bars ! currIdx)) highVol momConfirm]
                       else divergences
                  else divergences);
               divs2 =
                 (if currPrice < prevPrice \<and> currCCI > prevCCI then
                    let s = calcStrength ((prevPrice - currPrice) / prevPrice)
                              (currCCI - prevCCI) isExtreme highVol momConfirm
                    in if s \<ge> minStrength
                       then divs1 @ [mkDivergence HID_BEAR s currCCI currPrice
                                       (bar_t (bars ! currIdx)) highVol momConfirm]
                       else divs1
                  else divs1)
           in Inr divs2)"

text \<open>
  A loop whose body may raise: the first error ends the run. \<open>collect\<close> is the array
  \<open>divergences\<close> of \<^verbatim>\<open>detectDivergences\<close> after its two loops, before the recency
  filter; \<open>recentTimestamp\<close> is the cutoff \<^verbatim>\<open>bars[Math.max(0, recentBarIdx)]?.t || 0\<close>.
\<close>

definition run_loop ::
  "('s \<Rightarrow> nat \<Rightarrow> error + 's) \<Rightarrow> error + 's \<Rightarrow> nat list \<Rightarrow> error + 's" where
  "run_loop body start idxs =
     foldl (\<lambda>acc i. case acc of Inl e \<Rightarrow> Inl e | Inr st \<Rightarrow> body st i) start idxs"

definition collect ::
  "Bar list \<Rightarrow> number list \<Rightarrow> number list \<Rightarrow> number list \<Rightarrow> number list \<Rightarrow> number \<Rightarrow>
   error + Divergence list" where
  "collect bars cci' momentum' volume' avgVolume' minStrength =
     (let lookbackLeft = 5;
          lookbackRight = 5;
          pv = findPivots cci' lookbackLeft lookbackRight;
          cciLows = lows pv;
          cciHighs = highs pv;
          afterLows = run_loop (low_step bars cci' momentum' volume' avgVolume' minStrength cciLows)
                        (Inr []) [1..<length cciLows]
      in run_loop (high_step bars cci' momentum' volume' avgVolume' minStrength cciHighs)
           afterLows [1..<length cciHighs])"

definition recentTimestamp :: "Bar list \<Rightarrow> int" where
  "recentTimestamp bars =
     (let recentBarIdx = int (length bars) - 15;
          k = nat (max 0 recentBarIdx)
      in if k < length bars then (if bar_t (bars ! k) = 0 then 0 else bar_t (bars ! k)) else 0)"

definition detectDivergences ::
  "Bar list \<Rightarrow> number list \<Rightarrow> number list \<Rightarrow> number list \<Rightarrow> number list \<Rightarrow> number \<Rightarrow>
   error + Divergence list" where
  "detectDivergences bars cci' momentum' volume' avgVolume' minStrength =
     (case collect bars cci' momentum' volume' avgVolume' minStrength of
        Inl e \<Rightarrow> Inl e
      | Inr divergences \<Rightarrow>
          Inr (filter (\<lambda>d. timestamp d \<ge> recentTimestamp bars) divergences))"

section \<open>Example inputs\<close>

text \<open>A bar whose four prices are all \<open>p\<close>, with volume \<open>1\<close> and timestamp \<open>ts\<close>.\<close>

definition flat_bar :: "real \<Rightarrow> int \<Rightarrow> Bar" where
  "flat_bar p ts =
     \<lparr>bar_o = Fin p, bar_h = Fin p, bar_l = Fin p, bar_c = Fin p, bar_v = Fin 1, bar_t = ts\<rparr>"

text \<open>
  A series of \<open>n\<close> oscillator values that is \<open>0\<close> except for \<open>-200\<close> at index
  \<open>5\<close> and \<open>-110\<close> at index \<open>11\<close>, bars whose prices are \<open>128\<close> except for
  \<open>64\<close> at index \<open>11\<close> and whose timestamps are their indices, and the one divergence
  that the two pivot lows at \<open>5\<close> and \<open>11\<close> give with momentum \<open>1\<close>, volume \<open>2\<close>
  and average volume \<open>1\<close> everywhere.
\<close>

definition ex_cci :: "nat \<Rightarrow> number list" where
  "ex_cci n = map (\<lambda>k. if k = 5 then Fin (- 200) else if k = 11 then Fin (- 110) else Fin 0) [0..<n]"

definition ex_bars :: "nat \<Rightarrow> Bar list" where
  "ex_bars n = map (\<lambda>k. flat_bar (if k = 11 then 64 else 128) (int k)) [0..<n]"

definition ex_divergence :: Divergence where
  "ex_divergence =
     \<lparr>dtype = REG_BULL, strength = Fin (19 / 2), quality = STRONG, cciValue = Fin (- 110),
      price = Fin 64, timestamp = 11, volumeConfirmed = True, momentumConfirmed = True\<rparr>"

section \<open>Provenance of a divergence\<close>

text \<open>
  What the body of a pivot loop guarantees of a divergence \<open>d\<close> that it pushes at
  index \<open>i\<close> of the list \<open>pivots\<close> (\<open>low\<close> for the loop over the pivot lows): the gap
  of the adjacent pair is in \<open>[5, 60]\<close>, the fields of \<open>d\<close> are read at the current
  pivot, and its strength is \<^verbatim>\<open>calcStrength\<close> of the price and oscillator differences
  of the pair and of the three flags, and passed the threshold.
\<close>

definition emitted_by ::
  "Bar list \<Rightarrow> number list \<Rightarrow> number list \<Rightarrow> number list \<Rightarrow> number list \<Rightarrow> number \<Rightarrow>
   bool \<Rightarrow> nat list \<Rightarrow> nat \<Rightarrow> Divergence \<Rightarrow> bool" where
  "emitted_by bars cci' momentum' volume' avgVolume' minStrength low pivots i d =
     (let currIdx = pivots ! i;
          prevIdx = pivots ! (i - 1);
          currCCI = num_at cci' currIdx;
          prevCCI = num_at cci' prevIdx;
          currPrice = (if low then bar_l (bars ! currIdx) else bar_h (bars ! currIdx));
          prevPrice = (if low then bar_l (bars ! prevIdx) else bar_h (bars ! prevIdx));
          isExtreme = (if low then currCCI < Fin (- 100) else currCCI > Fin 100);
          highVol = num_at volume' currIdx > num_at avgVolume' currIdx * fl 1.2;
          momConfirm = (if low then num_at momentum' currIdx > Fin 0
                        else num_at momentum' currIdx < Fin 0);
          priceDiff = (if dtype d = HID_BEAR then (prevPrice - currPrice) / prevPrice
                       else (currPrice - prevPrice) / prevPrice);
          cciDiff = (if dtype d = REG_BULL \<or> dtype d = HID_BEAR then currCCI - prevCCI
                     else prevCCI - currCCI)
      in 1 \<le> i \<and> i < length pivots \<and>
         5 \<le> int currIdx - int prevIdx \<and> int currIdx - int prevIdx \<le> 60 \<and>
         currIdx < length bars \<and>
         dtype d \<in> (if low then {REG_BULL, HID_BULL} else {REG_BEAR, HID_BEAR}) \<and>
         timestamp d = bar_t (bars ! currIdx) \<and> price d = currPrice \<and> cciValue d = currCCI \<and>
         volumeConfirmed d = highVol \<and> momentumConfirmed d = momConfirm \<and>
         strength d = calcStrength priceDiff cciDiff isExtreme highVol momConfirm \<and>
         quality d = getQuality (strength d) \<and>
         strength d \<ge> minStrength)"

section \<open>Magnitudes\<close>

text \<open>A number that is finite, of magnitude at most \<open>c\<close>.\<close>

definition finite_within :: "real \<Rightarrow> number \<Rightarrow> bool" where
  "finite_within c v = (case v of Fin r \<Rightarrow> \<bar>r\<bar> \<le> c | _ \<Rightarrow> False)"

section \<open>Properties of the rounding\<close>

lemma rne_cases: "rne q = \<lfloor>q\<rfloor> \<or> rne q = \<lfloor>q\<rfloor> + 1"
  by (simp add: rne_def Let_def)

lemma rne_of_int: "rne (of_int n) = n"
  by (simp add: rne_def)

lemma rne_lower: "\<lfloor>q\<rfloor> \<le> rne q"
  using rne_cases [of q] by auto

lemma rne_upper: "rne q \<le> \<lceil>q\<rceil>"
proof (cases "q = of_int \<lfloor>q\<rfloor>")
  case True
  then have "rne q = \<lfloor>q\<rfloor>" by (metis rne_of_int)
  then show ?thesis by (simp add: floor_le_ceiling)
next
  case False
  then have "\<lceil>q\<rceil> = \<lfloor>q\<rfloor> + 1" by (simp add: ceiling_altdef)
  then show ?thesis using rne_cases [of q] by auto
qed

lemma rne_mono:
  assumes "q \<le> q'"
  shows "rne q \<le> rne q'"
proof (cases "\<lfloor>q\<rfloor> = \<lfloor>q'\<rfloor>")
  case True
  with assms have "q - of_int \<lfloor>q\<rfloor> \<le> q' - of_int \<lfloor>q'\<rfloor>" by simp
  with True show ?thesis by (auto simp add: rne_def Let_def)
next
  case False
  with assms have "\<lfloor>q\<rfloor> < \<lfloor>q'\<rfloor>" using floor_mono [of q q'] by linarith
  then have "\<lfloor>q\<rfloor> + 1 \<le> \<lfloor>q'\<rfloor>" by simp
  with rne_cases [of q] rne_lower [of q'] show ?thesis by linarith
qed

lemma rne_ge_int: "of_int n \<le> q \<Longrightarrow> n \<le> rne q"
  using rne_mono [of "of_int n" q] by (simp add: rne_of_int)

lemma rne_le_int: "q \<le> of_int n \<Longrightarrow> rne q \<le> n"
  using rne_mono [of q "of_int n"] by (simp add: rne_of_int)

lemma rne_half: "0 \<le> q \<Longrightarrow> q \<le> 1 / 2 \<Longrightarrow> rne q = 0"
proof -
  assume a: "0 \<le> q" "q \<le> 1 / 2"
  then have "\<lfloor>q\<rfloor> = 0" by (intro floor_unique) auto
  with a show ?thesis by (simp add: rne_def Let_def)
qed

lemma binade_ge_one:
  assumes "1 \<le> a"
  shows "0 \<le> binade a" and "2 powi (binade a) \<le> a" and "a < 2 powi (binade a + 1)"
proof -
  let ?n = "\<lfloor>a\<rfloor>"
  from assms have n: "0 < ?n" by simp
  from bitlen_bounds [OF n] have lo: "2 ^ nat (bitlen ?n - 1) \<le> ?n"
    and hi: "?n < 2 ^ nat (bitlen ?n)" by simp_all
  from n have b1: "1 \<le> bitlen ?n" by (simp add: bitlen_alt_def)
  have e: "binade a = bitlen ?n - 1" using assms by (simp add: binade_def)
  from b1 e show "0 \<le> binade a" by simp
  have "real_of_int (2 ^ nat (bitlen ?n - 1)) \<le> real_of_int ?n" using lo by linarith
  also have "\<dots> \<le> a" by simp
  finally show "2 powi (binade a) \<le> a" using b1 by (simp add: e power_int_nonneg_exp)
  from hi have "?n + 1 \<le> 2 ^ nat (bitlen ?n)" by simp
  then have "real_of_int (?n + 1) \<le> real_of_int (2 ^ nat (bitlen ?n))" by linarith
  moreover have "a < real_of_int (?n + 1)" by simp
  ultimately have "a < real_of_int (2 ^ nat (bitlen ?n))" by linarith
  then have "a < 2 ^ nat (bitlen ?n)" by simp
  moreover from b1 have "binade a + 1 = int (nat (bitlen ?n))" by (simp add: e)
  ultimately show "a < 2 powi (binade a + 1)" by (simp only: power_int_of_nat)
qed

lemma binade_lt_one:
  assumes "0 < a" "a < 1"
  shows "e_min \<le> binade a" and "binade a < 0" and "a < 2 powi (binade a + 1)"
    and "e_min < binade a \<Longrightarrow> 2 powi (binade a) \<le> a"
proof -
  let ?m = "\<lceil>1 / a\<rceil> - 1"
  from assms have y: "1 < 1 / a" by simp
  then have m: "0 < ?m" by (simp add: less_ceiling_iff)
  from m have "1 \<le> bitlen ?m" by (simp add: bitlen_alt_def)
  then obtain J where J: "bitlen ?m = int (Suc J)"
    by (metis Suc_pred' nat_0_le not_one_le_zero order_trans zero_le_one zero_less_nat_eq nat_eq_iff2 less_le)
  have n1: "nat (bitlen ?m - 1) = J" and n2: "nat (bitlen ?m) = Suc J" by (simp_all add: J)
  from bitlen_bounds [OF m] have lo: "2 ^ J \<le> ?m" and hi: "?m < 2 ^ Suc J"
    unfolding n1 n2 by blast+
  have e: "binade a = max (- int (Suc J)) e_min" using assms by (simp add: binade_def J)
  show "e_min \<le> binade a" by (simp add: e)
  show "binade a < 0" by (simp add: e e_min_def)
  have "real_of_int ?m < 1 / a" using ceiling_correct [of "1 / a"] by simp
  moreover from lo have "real_of_int (2 ^ J) \<le> real_of_int ?m" by (simp only: of_int_le_iff)
  ultimately have "real_of_int (2 ^ J) < 1 / a" by linarith
  then have "2 ^ J < 1 / a" by simp
  with assms(1) have "a * 2 ^ J < 1" by (simp add: field_simps)
  then have "a < 1 / 2 ^ J" by (simp add: field_simps)
  also have "1 / 2 ^ J = (2::real) powi (- int J)"
    by (simp add: power_int_minus_divide)
  finally have up: "a < 2 powi (- int J)" .
  have "(2::real) powi (- int J) \<le> 2 powi (binade a + 1)"
    by (rule power_int_increasing) (simp_all add: e)
  with up show "a < 2 powi (binade a + 1)" by simp
  assume "e_min < binade a"
  then have ej: "binade a = - int (Suc J)" by (simp add: e max_def split: if_splits)
  from hi have "\<lceil>1 / a\<rceil> \<le> 2 ^ Suc J" by simp
  then have "1 / a \<le> real_of_int (2 ^ Suc J)" by (simp only: ceiling_le_iff)
  then have "1 / a \<le> 2 ^ Suc J" by simp
  with assms(1) have "1 \<le> a * 2 ^ Suc J" by (simp add: field_simps)
  then have "1 / 2 ^ Suc J \<le> a" by (simp add: field_simps)
  moreover have "1 / 2 ^ Suc J = (2::real) powi (- int (Suc J))"
    by (simp only: power_int_minus_divide power_int_of_nat)
  ultimately show "2 powi (binade a) \<le> a" by (simp only: ej)
qed

lemma binade_bounds:
  assumes "0 < a"
  shows "e_min \<le> binade a" and "a < 2 powi (binade a + 1)"
    and "e_min < binade a \<Longrightarrow> 2 powi (binade a) \<le> a"
proof -
  show "e_min \<le> binade a"
    using binade_ge_one(1) [of a] binade_lt_one(1) [of a] assms
    by (cases "1 \<le> a") (simp_all add: e_min_def)
  show "a < 2 powi (binade a + 1)"
    using binade_ge_one(3) [of a] binade_lt_one(3) [of a] assms by (cases "1 \<le> a") simp_all
  show "e_min < binade a \<Longrightarrow> 2 powi (binade a) \<le> a"
    using binade_ge_one(2) [of a] binade_lt_one(4) [of a] assms by (cases "1 \<le> a") simp_all
qed

lemma binade_le:
  assumes "0 < a" "a < 2 powi (k + 1)" "e_min \<le> k"
  shows "binade a \<le> k"
proof (rule ccontr)
  assume "\<not> binade a \<le> k"
  then have k: "k + 1 \<le> binade a" by simp
  with assms(3) have "e_min < binade a" by simp
  from binade_bounds(3) [OF assms(1) this] have "2 powi (binade a) \<le> a" .
  moreover from k have "(2::real) powi (k + 1) \<le> 2 powi (binade a)"
    by (intro power_int_increasing) simp_all
  ultimately show False using assms(2) by simp
qed

lemma binade_ge:
  assumes "0 < a" "2 powi k \<le> a"
  shows "k \<le> binade a"
proof (rule ccontr)
  assume "\<not> k \<le> binade a"
  then have "binade a + 1 \<le> k" by simp
  then have "(2::real) powi (binade a + 1) \<le> 2 powi k"
    by (intro power_int_increasing) simp_all
  with binade_bounds(2) [OF assms(1)] assms(2) show False by simp
qed

lemma binade_mono:
  assumes "0 < a" "a \<le> b"
  shows "binade a \<le> binade b"
proof -
  from assms have b: "0 < b" by simp
  from binade_bounds(2) [OF b] assms(2) have "a < 2 powi (binade b + 1)" by simp
  from binade_le [OF assms(1) this binade_bounds(1) [OF b]] show ?thesis .
qed

lemma int_le_pow: "n \<le> 2 ^ k \<Longrightarrow> real_of_int n \<le> 2 ^ k"
proof -
  assume "n \<le> 2 ^ k"
  then have "real_of_int n \<le> real_of_int (2 ^ k)" by (simp only: of_int_le_iff)
  then show ?thesis by simp
qed

lemma pow_le_int: "2 ^ k \<le> n \<Longrightarrow> 2 ^ k \<le> real_of_int n"
proof -
  assume "2 ^ k \<le> n"
  then have "real_of_int (2 ^ k) \<le> real_of_int n" by (simp only: of_int_le_iff)
  then show ?thesis by simp
qed

lemma ulp_facts:
  shows "0 < (2::real) powi (e - 52)"
    and "2 ^ 53 * (2::real) powi (e - 52) = 2 powi (e + 1)"
    and "2 ^ 52 * (2::real) powi (e - 52) = 2 powi e"
proof -
  show "0 < (2::real) powi (e - 52)" by simp
  have "(2::real) powi (53 + (e - 52)) = 2 powi 53 * 2 powi (e - 52)"
    by (rule power_int_add) simp
  moreover have "53 + (e - 52) = e + 1" by simp
  ultimately show "2 ^ 53 * (2::real) powi (e - 52) = 2 powi (e + 1)" by simp
  have "(2::real) powi (52 + (e - 52)) = 2 powi 52 * 2 powi (e - 52)"
    by (rule power_int_add) simp
  moreover have "52 + (e - 52) = e" by simp
  ultimately show "2 ^ 52 * (2::real) powi (e - 52) = 2 powi e" by simp
qed

lemma nearest_bounds:
  assumes "0 < a"
  shows "0 \<le> nearest a" and "nearest a \<le> 2 powi (binade a + 1)"
    and "e_min < binade a \<Longrightarrow> 2 powi (binade a) \<le> nearest a"
proof -
  let ?u = "(2::real) powi (binade a - 52)"
  note u = ulp_facts [of "binade a"]
  from assms u(1) have "0 \<le> a / ?u" by simp
  then have "0 \<le> rne (a / ?u)" using rne_ge_int [of 0 "a / ?u"] by simp
  with u(1) show "0 \<le> nearest a" by (simp add: nearest_def Let_def)
  from binade_bounds(2) [OF assms] u(2) have "a < 2 ^ 53 * ?u" by simp
  with u(1) have "a / ?u \<le> 2 ^ 53" by (simp add: field_simps)
  then have "a / ?u \<le> real_of_int (2 ^ 53)" by simp
  then have "rne (a / ?u) \<le> 2 ^ 53" by (rule rne_le_int)
  then have "real_of_int (rne (a / ?u)) \<le> 2 ^ 53" by (rule int_le_pow)
  with u(1) have "real_of_int (rne (a / ?u)) * ?u \<le> 2 ^ 53 * ?u"
    by (intro mult_right_mono) simp_all
  with u(2) show "nearest a \<le> 2 powi (binade a + 1)" by (simp add: nearest_def Let_def)
  assume "e_min < binade a"
  from binade_bounds(3) [OF assms this] u(3) have "2 ^ 52 * ?u \<le> a" by simp
  with u(1) have "2 ^ 52 \<le> a / ?u" by (simp add: field_simps)
  then have "real_of_int (2 ^ 52) \<le> a / ?u" by simp
  then have "2 ^ 52 \<le> rne (a / ?u)" by (rule rne_ge_int)
  then have "2 ^ 52 \<le> real_of_int (rne (a / ?u))" by (rule pow_le_int)
  with u(1) have "2 ^ 52 * ?u \<le> real_of_int (rne (a / ?u)) * ?u"
    by (intro mult_right_mono) simp_all
  with u(3) show "2 powi (binade a) \<le> nearest a" by (simp add: nearest_def Let_def)
qed

lemma nearest_mono:
  assumes "0 < a" "a \<le> b"
  shows "nearest a \<le> nearest b"
proof (cases "binade a = binade b")
  case True
  let ?u = "(2::real) powi (binade b - 52)"
  from assms(2) have "a / ?u \<le> b / ?u" by (simp add: divide_right_mono)
  then have "rne (a / ?u) \<le> rne (b / ?u)" by (rule rne_mono)
  then have "real_of_int (rne (a / ?u)) * ?u \<le> real_of_int (rne (b / ?u)) * ?u"
    by (intro mult_right_mono) simp_all
  with True show ?thesis by (simp add: nearest_def Let_def)
next
  case False
  from assms have b: "0 < b" by simp
  from False binade_mono [OF assms] have lt: "binade a + 1 \<le> binade b" by simp
  with binade_bounds(1) [OF assms(1)] have "e_min < binade b" by simp
  from nearest_bounds(3) [OF b this] have "2 powi (binade b) \<le> nearest b" .
  moreover from lt have "(2::real) powi (binade a + 1) \<le> 2 powi (binade b)"
    by (intro power_int_increasing) simp_all
  ultimately show ?thesis using nearest_bounds(2) [OF assms(1)] by linarith
qed

lemma nearest_exact:
  assumes x: "x = real_of_int n * 2 powi k" and n: "0 < n" "n < 2 ^ 53" and k: "e_min - 52 \<le> k"
  shows "nearest x = x"
proof -
  from n have pos: "0 < x" by (simp add: x)
  define u where "u = (2::real) powi (binade x - 52)"
  have upos: "0 < u" by (simp add: u_def)
  from n(2) have "real_of_int n < real_of_int (2 ^ 53)" by (simp only: of_int_less_iff)
  then have "real_of_int n < 2 ^ 53" by simp
  then have lt: "x < 2 ^ 53 * 2 powi k" by (simp add: x)
  have "(2::real) powi (k + 52 + 1) = 2 powi (53 + k)"
    by (rule arg_cong [where f = "power_int 2"]) simp
  also have "\<dots> = 2 powi 53 * 2 powi k"
    by (rule power_int_add) simp
  also have "\<dots> = 2 ^ 53 * 2 powi k" by simp
  finally have eq: "(2::real) powi (k + 52 + 1) = 2 ^ 53 * 2 powi k" .
  from lt have "x < 2 powi (k + 52 + 1)" by (simp only: eq)
  from binade_le [OF pos this] k have ek: "binade x - 52 \<le> k" by simp
  define J where "J = nat (k - (binade x - 52))"
  from ek have J: "int J = k - (binade x - 52)" by (simp add: J_def)
  have "(2::real) powi k = 2 powi (int J + (binade x - 52))"
    by (rule arg_cong [where f = "power_int 2"]) (simp add: J)
  also have "\<dots> = 2 powi (int J) * u" unfolding u_def
    by (rule power_int_add) simp
  also have "\<dots> = 2 ^ J * u" by simp
  finally have "(2::real) powi k = 2 ^ J * u" .
  then have xu: "x = real_of_int (n * 2 ^ J) * u" by (simp add: x)
  with upos have "x / u = real_of_int (n * 2 ^ J)" by simp
  then have "rne (x / u) = n * 2 ^ J" by (simp only: rne_of_int)
  then have "real_of_int (rne (x / u)) * u = x" by (simp only: xu [symmetric])
  then show ?thesis by (simp only: nearest_def Let_def u_def)
qed

lemma powi_double: "(2::real) powi (k + 1) = 2 * 2 powi k"
  by (rule power_int_add_1') simp

lemma nearest_small:
  assumes "0 < a" "a \<le> 2 powi (e_min - 53)"
  shows "nearest a = 0"
proof -
  let ?m = "e_min - 52"
  have "(2::real) powi (e_min - 53) < 2 powi (e_min + 1)"
    by (rule power_int_strict_increasing) simp_all
  with assms(2) have "a < 2 powi (e_min + 1)" by simp
  from binade_le [OF assms(1) this] binade_bounds(1) [OF assms(1)]
  have e: "binade a = e_min" by simp
  from powi_double [of "e_min - 53"] have u: "(2::real) powi ?m = 2 * 2 powi (e_min - 53)"
    by simp
  have p: "0 < (2::real) powi (e_min - 53)" by simp
  from assms(2) p have "a / (2 * 2 powi (e_min - 53)) \<le> 1 / 2"
    by (simp add: field_simps)
  then have "a / 2 powi ?m \<le> 1 / 2" by (simp only: u)
  moreover from assms(1) have "0 \<le> a / 2 powi ?m" by simp
  ultimately have "rne (a / 2 powi ?m) = 0" by (intro rne_half)
  then show ?thesis by (simp add: nearest_def e)
qed

lemma nearest_large:
  assumes "2 powi k \<le> a" "e_min < k"
  shows "2 powi k \<le> nearest a"
proof -
  have "0 < (2::real) powi k" by simp
  with assms(1) have pos: "0 < a" by linarith
  from binade_ge [OF pos assms(1)] have ke: "k \<le> binade a" .
  with assms(2) have "e_min < binade a" by simp
  from nearest_bounds(3) [OF pos this] have "2 powi (binade a) \<le> nearest a" .
  moreover from ke have "(2::real) powi k \<le> 2 powi (binade a)"
    by (intro power_int_increasing) simp_all
  ultimately show ?thesis by linarith
qed

lemma fl_pos_code [code]:
  "fl_pos a =
     (if a = 0 then Fin 0
      else if e_max + 1 \<le> binade (nearest a) then PInf else Fin (nearest a))"
proof (cases "a = 0")
  case True
  then show ?thesis by (simp add: fl_pos_def)
next
  case False
  show ?thesis
  proof (cases "0 < nearest a")
    case True
    have "(2 powi (e_max + 1) \<le> nearest a) = (e_max + 1 \<le> binade (nearest a))"
    proof
      assume "2 powi (e_max + 1) \<le> nearest a"
      from binade_ge [OF True this] show "e_max + 1 \<le> binade (nearest a)" .
    next
      assume a: "e_max + 1 \<le> binade (nearest a)"
      then have "e_min < binade (nearest a)" by (simp add: e_min_def e_max_def)
      from binade_bounds(3) [OF True this] have "2 powi (binade (nearest a)) \<le> nearest a" .
      moreover from a have "(2::real) powi (e_max + 1) \<le> 2 powi (binade (nearest a))"
        by (intro power_int_increasing) simp_all
      ultimately show "2 powi (e_max + 1) \<le> nearest a" by linarith
    qed
    with False show ?thesis by (simp add: fl_pos_def)
  next
    case n: False
    have "0 < (2::real) powi (e_max + 1)" by simp
    with n have 1: "\<not> 2 powi (e_max + 1) \<le> nearest a" by linarith
    have "binade (nearest a) \<le> 0"
    proof (cases "1 \<le> nearest a")
      case True
      with n show ?thesis by simp
    next
      case False
      then show ?thesis by (simp add: binade_def bitlen_nonneg e_min_def)
    qed
    then have 2: "\<not> e_max + 1 \<le> binade (nearest a)" by (simp add: e_max_def)
    from 1 2 \<open>a \<noteq> 0\<close> show ?thesis by (simp add: fl_pos_def)
  qed
qed

lemma fl_pos_zero: "fl_pos 0 = Fin 0"
  by (simp add: fl_pos_def)

lemma fl_pos_value:
  assumes "0 < a"
  shows "fl_pos a = (if 2 powi (e_max + 1) \<le> nearest a then PInf else Fin (nearest a))"
  using assms by (simp add: fl_pos_def)

lemma fl_pos_sign:
  assumes "0 \<le> a"
  shows "fl_pos a = PInf \<or> (\<exists>y. fl_pos a = Fin y \<and> 0 \<le> y)"
proof (cases "a = 0")
  case True
  then show ?thesis by (simp add: fl_pos_zero)
next
  case False
  with assms have "0 < a" by simp
  from nearest_bounds(1) [OF this] fl_pos_value [OF this] show ?thesis by simp
qed

lemma number_le_simps:
  "(Fin a \<le> Fin b) = (a \<le> b)" "Fin a \<le> PInf" "NInf \<le> Fin b" "PInf \<le> PInf" "NInf \<le> NInf"
  "NInf \<le> PInf" "\<not> PInf \<le> Fin b" "\<not> Fin a \<le> NInf" "\<not> PInf \<le> NInf"
  "\<not> NaN \<le> v" "\<not> v \<le> NaN"
  by (cases v; auto simp add: less_eq_number_def)+

lemma fl_pos_mono:
  assumes "0 \<le> a" "a \<le> b"
  shows "fl_pos a \<le> fl_pos b"
proof (cases "a = 0")
  case True
  from assms have "0 \<le> b" by simp
  from fl_pos_sign [OF this] True show ?thesis
    by (auto simp add: fl_pos_zero number_le_simps)
next
  case False
  with assms have a: "0 < a" and b: "0 < b" by simp_all
  from nearest_mono [OF a assms(2)] show ?thesis
    by (simp add: fl_pos_value [OF a] fl_pos_value [OF b] number_le_simps)
qed

lemma neg_le_neg: "(a::number) \<le> b \<Longrightarrow> - b \<le> - a"
  by (cases a; cases b) (simp_all add: number_le_simps)

lemma fl_sign_pos:
  assumes "0 \<le> x"
  shows "fl x = PInf \<or> (\<exists>y. fl x = Fin y \<and> 0 \<le> y)"
  using assms fl_pos_sign [of x] by (simp add: fl_def)

lemma fl_sign_neg:
  assumes "x \<le> 0"
  shows "fl x = NInf \<or> (\<exists>y. fl x = Fin y \<and> y \<le> 0)"
proof (cases "x < 0")
  case True
  then have "0 \<le> - x" by simp
  from fl_pos_sign [OF this] True show ?thesis by (auto simp add: fl_def)
next
  case False
  with assms have "x = 0" by simp
  then show ?thesis by (simp add: fl_def fl_pos_zero)
qed

lemma fl_not_NaN: "\<not> isNaN (fl x)"
  using fl_sign_pos [of x] fl_sign_neg [of x] by (cases "0 \<le> x") auto

lemma fl_mono:
  assumes "x \<le> y"
  shows "fl x \<le> fl y"
proof -
  consider "0 \<le> x" | "x < 0" "0 \<le> y" | "x < 0" "y < 0" by linarith
  then show ?thesis
  proof cases
    case 1
    with assms fl_pos_mono [of x y] show ?thesis by (simp add: fl_def)
  next
    case 2
    from 2(1) have "x \<le> 0" by simp
    from fl_sign_neg [OF this] fl_sign_pos [OF 2(2)] show ?thesis
      by (auto simp add: number_le_simps)
  next
    case 3
    with assms have "0 \<le> - y" "- y \<le> - x" by simp_all
    from neg_le_neg [OF fl_pos_mono [OF this]] 3 show ?thesis by (simp add: fl_def)
  qed
qed

lemma fl_neg: "fl (- x) = - fl x"
proof -
  consider "x < 0" | "x = 0" | "0 < x" by linarith
  then show ?thesis
  proof cases
    case 1
    then show ?thesis by (cases "fl_pos (- x)") (simp_all add: fl_def)
  next
    case 2
    then show ?thesis by (simp add: fl_def fl_pos_zero)
  next
    case 3
    then show ?thesis by (simp add: fl_def)
  qed
qed

lemma fl_exact_pos:
  assumes n: "0 < n" "n < 2 ^ 53" and k: "e_min - 52 \<le> k" "k \<le> e_max - 52"
  shows "fl (real_of_int n * 2 powi k) = Fin (real_of_int n * 2 powi k)"
proof -
  let ?x = "real_of_int n * 2 powi k"
  from n(1) have pos: "0 < ?x" by simp
  from nearest_exact [OF refl n k(1)] have ne: "nearest ?x = ?x" .
  from n(2) have "real_of_int n < real_of_int (2 ^ 53)" by (simp only: of_int_less_iff)
  then have "real_of_int n < 2 ^ 53" by simp
  then have "?x < 2 ^ 53 * 2 powi k" by simp
  also have "2 ^ 53 * (2::real) powi k = 2 powi (53 + k)"
    by (simp add: power_int_add)
  also from k(2) have "\<dots> \<le> 2 powi (e_max + 1)"
    by (intro power_int_increasing) simp_all
  finally have "\<not> 2 powi (e_max + 1) \<le> ?x" by simp
  with pos ne show ?thesis by (simp add: fl_def fl_pos_value)
qed

lemma fl_exact:
  assumes n: "\<bar>n\<bar> < 2 ^ 53" and k: "e_min - 52 \<le> k" "k \<le> e_max - 52"
  shows "fl (real_of_int n * 2 powi k) = Fin (real_of_int n * 2 powi k)"
proof -
  consider "0 < n" | "n = 0" | "n < 0" by linarith
  then show ?thesis
  proof cases
    case 1
    with n have "n < 2 ^ 53" by simp
    from fl_exact_pos [OF 1 this k] show ?thesis .
  next
    case 2
    then show ?thesis by (simp add: fl_def fl_pos_zero)
  next
    case 3
    with n have "0 < - n" "- n < 2 ^ 53" by simp_all
    from fl_exact_pos [OF this k] have "fl (- (real_of_int n * 2 powi k)) = Fin (- (real_of_int n * 2 powi k))"
      by simp
    then have "- fl (real_of_int n * 2 powi k) = Fin (- (real_of_int n * 2 powi k))"
      by (simp only: fl_neg)
    then show ?thesis by (cases "fl (real_of_int n * 2 powi k)") simp_all
  qed
qed

lemma fl_between:
  assumes "lo \<le> x" "x \<le> hi" "fl lo = Fin lo" "fl hi = Fin hi"
  shows "\<exists>y. fl x = Fin y \<and> lo \<le> y \<and> y \<le> hi"
  using fl_mono [OF assms(1)] fl_mono [OF assms(2)] assms(3,4)
  by (cases "fl x") (simp_all add: number_le_simps)

lemma fl_overflow:
  assumes "2 powi (e_max + 1) \<le> x"
  shows "fl x = PInf"
proof -
  have "0 < (2::real) powi (e_max + 1)" by simp
  with assms have pos: "0 < x" by linarith
  have "e_min < e_max + 1" by (simp add: e_min_def e_max_def)
  from nearest_large [OF assms this] pos show ?thesis by (simp add: fl_def fl_pos_value)
qed

lemma fl_underflow:
  assumes "0 \<le> x" "x \<le> 2 powi (e_min - 53)"
  shows "fl x = Fin 0"
proof (cases "x = 0")
  case True
  then show ?thesis by (simp add: fl_def fl_pos_zero)
next
  case False
  with assms have pos: "0 < x" by simp
  have "\<not> (2::real) powi (e_max + 1) \<le> 0" by (simp add: not_le)
  with nearest_small [OF pos assms(2)] pos show ?thesis by (simp add: fl_def fl_pos_value)
qed

section \<open>Properties of the exponential average\<close>

lemma ema_step_length: "length (ema_step values m result i) = Suc (length result)"
  by (simp add: ema_step_def)

lemma ema_run_length: "length (foldl (ema_step values m) [] [0..<n]) = n"
  by (induction n) (simp_all add: ema_step_length)

lemma ema_run_nth_stable:
  assumes "i < n"
  shows "foldl (ema_step values m) [] [0..<Suc n] ! i = foldl (ema_step values m) [] [0..<n] ! i"
  using assms by (simp add: ema_step_def nth_append ema_run_length)

lemma ema_run_prefix:
  "i < k \<Longrightarrow> k \<le> n \<Longrightarrow>
   foldl (ema_step values m) [] [0..<n] ! i = foldl (ema_step values m) [] [0..<k] ! i"
proof (induction n)
  case 0
  then show ?case by simp
next
  case (Suc n)
  show ?case
  proof (cases "k = Suc n")
    case True
    then show ?thesis by simp
  next
    case False
    with Suc.prems have "k \<le> n" by simp
    with Suc.prems Suc.IH have "foldl (ema_step values m) [] [0..<n] ! i
        = foldl (ema_step values m) [] [0..<k] ! i" by simp
    moreover from Suc.prems \<open>k \<le> n\<close> have "i < n" by simp
    ultimately show ?thesis using ema_run_nth_stable [of i n "values" m] by simp
  qed
qed

lemma ema_run_last:
  "foldl (ema_step values m) [] [0..<Suc i] ! i =
     (if i = 0 then values ! i
      else if isNaN (foldl (ema_step values m) [] [0..<i] ! (i - 1)) then values ! i
      else (values ! i - foldl (ema_step values m) [] [0..<i] ! (i - 1)) * m
           + foldl (ema_step values m) [] [0..<i] ! (i - 1))"
  by (simp add: ema_step_def nth_append ema_run_length)

lemma ema_run_rec:
  assumes "i < n"
  shows "foldl (ema_step values m) [] [0..<n] ! i =
     (if i = 0 then values ! i
      else if isNaN (foldl (ema_step values m) [] [0..<n] ! (i - 1)) then values ! i
      else (values ! i - foldl (ema_step values m) [] [0..<n] ! (i - 1)) * m
           + foldl (ema_step values m) [] [0..<n] ! (i - 1))"
proof -
  have a: "foldl (ema_step values m) [] [0..<n] ! i
      = foldl (ema_step values m) [] [0..<Suc i] ! i"
    using assms ema_run_prefix [of i "Suc i" n "values" m] by simp
  show ?thesis
  proof (cases "i = 0")
    case True
    with a show ?thesis by (simp add: ema_run_last del: upt_Suc foldl_append)
  next
    case False
    then have "i - 1 < i" by simp
    with assms have b: "foldl (ema_step values m) [] [0..<n] ! (i - 1)
        = foldl (ema_step values m) [] [0..<i] ! (i - 1)"
      using ema_run_prefix [of "i - 1" i n "values" m] by simp
    show ?thesis unfolding a b by (rule ema_run_last)
  qed
qed

lemma ema_length: "length (ema values period) = length values"
  by (simp add: ema_def ema_run_length)

lemma ema_rec:
  assumes "i < length values"
  shows "ema values period ! i =
     (if i = 0 then values ! i
      else if isNaN (ema values period ! (i - 1)) then values ! i
      else (values ! i - ema values period ! (i - 1)) * (Fin 2 / (Fin (real period) + Fin 1))
           + ema values period ! (i - 1))"
  using ema_run_rec [OF assms] by (simp add: ema_def)

lemma ema_leading_NaN:
  assumes "\<forall>j<k. isNaN (values ! j)" and "k \<le> length values"
  shows "j < k \<Longrightarrow> isNaN (ema values period ! j)"
proof (induction j)
  case 0
  with assms have "0 < length values" and "isNaN (values ! 0)" by auto
  then show ?case by (simp add: ema_rec)
next
  case (Suc j)
  then have "isNaN (ema values period ! j)" by simp
  moreover from Suc.prems assms have "Suc j < length values" and "isNaN (values ! Suc j)"
    by simp_all
  ultimately show ?case by (simp add: ema_rec)
qed

text \<open>
  C6. For every input series and period, \<^verbatim>\<open>ema\<close> returns a series of the same length;
  its output at the first index whose input is defined is that input; at every later index
  whose previous output is undefined the output is the current input (restart); and at
  every other index \<open>i \<ge> 1\<close> it is
  \<open>(input[i] - output[i-1]) * (2 / (period + 1)) + output[i-1]\<close>. The output at index
  \<open>0\<close> is the input at index \<open>0\<close>.
\<close>

theorem ema_seed_restart_recurrence:
  "length (ema values period) = length values \<and>
   (\<forall>k<length values. \<not> isNaN (values ! k) \<and> (\<forall>j<k. isNaN (values ! j)) \<longrightarrow>
        ema values period ! k = values ! k) \<and>
   (\<forall>i<length values. 0 < i \<and> isNaN (ema values period ! (i - 1)) \<longrightarrow>
        ema values period ! i = values ! i) \<and>
   (\<forall>i<length values. 0 < i \<and> \<not> isNaN (ema values period ! (i - 1)) \<longrightarrow>
        ema values period ! i =
          (values ! i - ema values period ! (i - 1)) * (Fin 2 / (Fin (real period) + Fin 1))
          + ema values period ! (i - 1)) \<and>
   (0 < length values \<longrightarrow> ema values period ! 0 = values ! 0)"
proof (intro conjI allI impI)
  show "length (ema values period) = length values" by (rule ema_length)
next
  assume "0 < length values"
  then show "ema values period ! 0 = values ! 0" by (simp add: ema_rec)
next
  fix k
  assume k: "k < length values"
    and first: "\<not> isNaN (values ! k) \<and> (\<forall>j<k. isNaN (values ! j))"
  show "ema values period ! k = values ! k"
  proof (cases "k = 0")
    case True
    with k show ?thesis by (simp add: ema_rec)
  next
    case False
    then have "k - 1 < k" by simp
    with first k have "isNaN (ema values period ! (k - 1))"
      using ema_leading_NaN [of k "values" "k - 1" period] by simp
    with k False show ?thesis by (simp add: ema_rec)
  qed
next
  fix i
  assume "i < length values" and "0 < i \<and> isNaN (ema values period ! (i - 1))"
  then show "ema values period ! i = values ! i" by (simp add: ema_rec)
next
  fix i
  assume "i < length values" and "0 < i \<and> \<not> isNaN (ema values period ! (i - 1))"
  then show "ema values period ! i =
      (values ! i - ema values period ! (i - 1)) * (Fin 2 / (Fin (real period) + Fin 1))
      + ema values period ! (i - 1)"
    by (simp add: ema_rec)
qed

theorem ema_seed_restart_recurrence_witness:
  "isNaN ([NaN, Fin 1, Fin 3] ! 0) \<and> \<not> isNaN ([NaN, Fin 1, Fin 3] ! 1) \<and>
   ema [NaN, Fin 1, Fin 3] 1 ! 1 = Fin 1 \<and> ema [NaN, Fin 1, Fin 3] 1 ! 2 = Fin 3"
proof -
  note t = ema_seed_restart_recurrence [of "[NaN, Fin 1, Fin 3]" 1]
  have a: "ema [NaN, Fin 1, Fin 3] 1 ! 1 = Fin 1"
    using t [THEN conjunct2, THEN conjunct1, rule_format, of 1] by simp
  have "ema [NaN, Fin 1, Fin 3] 1 ! 2 =
      (Fin 3 - ema [NaN, Fin 1, Fin 3] 1 ! 1)
        * (Fin 2 / (Fin (real 1) + Fin 1)) + ema [NaN, Fin 1, Fin 3] 1 ! 1"
    using a t [THEN conjunct2, THEN conjunct2, THEN conjunct2, THEN conjunct1, rule_format, of 2]
    by simp
  moreover have "(Fin 3 - Fin 1) * (Fin 2 / (Fin (real 1) + Fin 1)) + Fin 1 = Fin 3"
    by code_simp
  ultimately have b: "ema [NaN, Fin 1, Fin 3] 1 ! 2 = Fin 3" using a by simp
  from a b show ?thesis by simp
qed

section \<open>Magnitude bounds\<close>

lemma finite_within_Fin: "finite_within c (Fin r) = (\<bar>r\<bar> \<le> c)"
  by (simp add: finite_within_def)

lemma finite_within_cases: "finite_within c v \<Longrightarrow> \<exists>r. v = Fin r \<and> \<bar>r\<bar> \<le> c"
  by (cases v) (simp_all add: finite_within_def)

lemma finite_within_not_NaN: "finite_within c v \<Longrightarrow> \<not> isNaN v"
  by (cases v) (simp_all add: finite_within_def)

lemma finite_within_mono: "finite_within c v \<Longrightarrow> c \<le> c' \<Longrightarrow> finite_within c' v"
  by (cases v) (simp_all add: finite_within_def)

lemma fl_int:
  assumes "\<bar>n\<bar> < 2 ^ 53"
  shows "fl (real_of_int n) = Fin (real_of_int n)"
  using fl_exact [OF assms, of 0] by (simp add: e_min_def e_max_def)

lemma fl_zero: "fl 0 = Fin 0"
  by (simp add: fl_def fl_pos_zero)

lemma fl_one: "fl 1 = Fin 1"
  using fl_int [of 1] by simp

lemma fl_two: "fl 2 = Fin 2"
  using fl_int [of 2] by simp

lemma fl_within:
  assumes "\<bar>x\<bar> \<le> c" and "fl c = Fin c"
  shows "finite_within c (fl x)"
proof -
  from assms(2) have n: "fl (- c) = Fin (- c)" by (simp add: fl_neg)
  from assms(1) have "- c \<le> x" "x \<le> c" by simp_all
  from fl_between [OF this n assms(2)] show ?thesis by (auto simp add: finite_within_Fin)
qed

lemma minus_Fin: "Fin a - Fin b = fl (a - b)"
  by (simp add: minus_number_def)

lemma multiplier_range:
  assumes "1 \<le> period"
  shows "\<exists>\<mu>. Fin 2 / (Fin (real period) + Fin 1) = Fin \<mu> \<and> 0 \<le> \<mu> \<and> \<mu> \<le> 1"
proof -
  from assms have "2 \<le> real period + 1" by simp
  from fl_mono [OF this] have le: "Fin 2 \<le> fl (real period + 1)" by (simp add: fl_two)
  show ?thesis
  proof (cases "fl (real period + 1)")
    case NaN
    with le show ?thesis by (simp add: number_le_simps)
  next
    case NInf
    with le show ?thesis by (simp add: number_le_simps)
  next
    case (Fin q)
    with le have q: "2 \<le> q" by (simp add: number_le_simps)
    then have "0 \<le> 2 / q" "2 / q \<le> 1" by simp_all
    from fl_between [OF this fl_zero fl_one] Fin q show ?thesis by auto
  next
    case PInf
    then show ?thesis by simp
  qed
qed

lemma ema_step_up:
  assumes c: "0 \<le> c" "fl c = Fin c" "fl (2 * c) = Fin (2 * c)" "fl (3 * c) = Fin (3 * c)"
    and m: "0 \<le> \<mu>" "\<mu> \<le> 1"
    and v: "\<bar>v\<bar> \<le> c" and r: "\<bar>r\<bar> \<le> 2 * c" and vr: "r \<le> v"
  shows "finite_within (2 * c) ((Fin v - Fin r) * Fin \<mu> + Fin r)"
proof -
  define D where "D = (if 0 \<le> r then c else if - c \<le> r then 2 * c else 3 * c)"
  from c have fD: "fl D = Fin D" by (simp add: D_def)
  from v r vr have D1: "v - r \<le> D" and D2: "D + r \<le> 2 * c" and D0: "0 \<le> D"
    using c(1) by (auto simp add: D_def)
  from vr have "0 \<le> v - r" by simp
  from fl_between [OF this D1 fl_zero fD] obtain d where d: "fl (v - r) = Fin d" "0 \<le> d" "d \<le> D"
    by auto
  from d(2) m have "0 \<le> d * \<mu>" by simp
  moreover from d(2) m have "d * \<mu> \<le> d * 1" by (intro mult_left_mono) simp_all
  with d(3) have "d * \<mu> \<le> D" by simp
  ultimately obtain p where p: "fl (d * \<mu>) = Fin p" "0 \<le> p" "p \<le> D"
    using fl_between [OF _ _ fl_zero fD, of "d * \<mu>"] by auto
  from p(2,3) D2 r have "\<bar>p + r\<bar> \<le> 2 * c" by simp
  from fl_within [OF this c(3)] show ?thesis by (simp add: minus_Fin d p)
qed

lemma ema_step_down:
  assumes c: "0 \<le> c" "fl c = Fin c" "fl (2 * c) = Fin (2 * c)" "fl (3 * c) = Fin (3 * c)"
    and m: "0 \<le> \<mu>" "\<mu> \<le> 1"
    and v: "\<bar>v\<bar> \<le> c" and r: "\<bar>r\<bar> \<le> 2 * c" and vr: "v \<le> r"
  shows "finite_within (2 * c) ((Fin v - Fin r) * Fin \<mu> + Fin r)"
proof -
  define D where "D = (if r \<le> 0 then c else if r \<le> c then 2 * c else 3 * c)"
  from c have "fl D = Fin D" by (simp add: D_def)
  then have fD: "fl (- D) = Fin (- D)" by (simp add: fl_neg)
  from v r vr have D1: "- D \<le> v - r" and D2: "- (2 * c) \<le> - D + r" and D0: "0 \<le> D"
    using c(1) by (auto simp add: D_def)
  from vr have "v - r \<le> 0" by simp
  from fl_between [OF D1 this fD fl_zero] obtain d where d: "fl (v - r) = Fin d" "- D \<le> d" "d \<le> 0"
    by auto
  from d(3) m have "d * \<mu> \<le> 0" by (simp add: mult_nonpos_nonneg)
  moreover from d(3) m have "d * 1 \<le> d * \<mu>" by (intro mult_left_mono_neg) simp_all
  with d(2) have "- D \<le> d * \<mu>" by simp
  ultimately obtain p where p: "fl (d * \<mu>) = Fin p" "- D \<le> p" "p \<le> 0"
    using fl_between [OF _ _ fD fl_zero, of "d * \<mu>"] by auto
  from p(2,3) D2 r have "\<bar>p + r\<bar> \<le> 2 * c" by simp
  from fl_within [OF this c(3)] show ?thesis by (simp add: minus_Fin d p)
qed

lemma ema_step_bounded:
  assumes c: "0 \<le> c" "fl c = Fin c" "fl (2 * c) = Fin (2 * c)" "fl (3 * c) = Fin (3 * c)"
    and m: "0 \<le> \<mu>" "\<mu> \<le> 1"
    and v: "finite_within c a" and r: "finite_within (2 * c) b"
  shows "finite_within (2 * c) ((a - b) * Fin \<mu> + b)"
proof -
  from finite_within_cases [OF v] obtain x where x: "a = Fin x" "\<bar>x\<bar> \<le> c" by blast
  from finite_within_cases [OF r] obtain y where y: "b = Fin y" "\<bar>y\<bar> \<le> 2 * c" by blast
  show ?thesis
  proof (cases "y \<le> x")
    case True
    from ema_step_up [OF c m x(2) y(2) True] show ?thesis by (simp only: x(1) y(1))
  next
    case False
    then have "x \<le> y" by simp
    from ema_step_down [OF c m x(2) y(2) this] show ?thesis by (simp only: x(1) y(1))
  qed
qed

lemma NaN_arith: "NaN - b = NaN" "NaN * b = NaN" "NaN + b = NaN"
  by (simp_all add: minus_number_def)

lemma ema_run_bounded:
  assumes c: "0 \<le> c" "fl c = Fin c" "fl (2 * c) = Fin (2 * c)" "fl (3 * c) = Fin (3 * c)"
    and m: "0 \<le> \<mu>" "\<mu> \<le> 1"
    and v: "\<forall>i<n. isNaN (values ! i) \<or> finite_within c (values ! i)"
  shows "i < n \<Longrightarrow>
     isNaN (foldl (ema_step values (Fin \<mu>)) [] [0..<n] ! i) = isNaN (values ! i) \<and>
     (isNaN (values ! i) \<or> finite_within (2 * c) (foldl (ema_step values (Fin \<mu>)) [] [0..<n] ! i))"
proof (induction i)
  case 0
  from v 0 have "isNaN (values ! 0) \<or> finite_within c (values ! 0)" by simp
  moreover from c(1) have "c \<le> 2 * c" by simp
  ultimately show ?case using ema_run_rec [OF 0] finite_within_mono [of c "values ! 0" "2 * c"] by auto
next
  case (Suc i)
  let ?prev = "foldl (ema_step values (Fin \<mu>)) [] [0..<n] ! i"
  from Suc have ih: "isNaN ?prev = isNaN (values ! i)"
    "isNaN (values ! i) \<or> finite_within (2 * c) ?prev" by simp_all
  from v Suc.prems have vi: "isNaN (values ! Suc i) \<or> finite_within c (values ! Suc i)" by simp
  from c(1) have cc: "c \<le> 2 * c" by simp
  note rec = ema_run_rec [OF Suc.prems, of "values" "Fin \<mu>"]
  show ?case
  proof (cases "isNaN ?prev")
    case True
    with rec have "foldl (ema_step values (Fin \<mu>)) [] [0..<n] ! Suc i = values ! Suc i" by simp
    with vi finite_within_mono [OF _ cc] show ?thesis by auto
  next
    case False
    with ih have w: "finite_within (2 * c) ?prev" by simp
    from False rec have e: "foldl (ema_step values (Fin \<mu>)) [] [0..<n] ! Suc i
        = (values ! Suc i - ?prev) * Fin \<mu> + ?prev" by simp
    show ?thesis
    proof (cases "isNaN (values ! Suc i)")
      case True
      then have "values ! Suc i = NaN" by (cases "values ! Suc i") simp_all
      with e True show ?thesis by (simp add: NaN_arith)
    next
      case False
      with vi have "finite_within c (values ! Suc i)" by simp
      from ema_step_bounded [OF c m this w] e False finite_within_not_NaN show ?thesis by auto
    qed
  qed
qed

lemma ema_bounded:
  assumes c: "0 \<le> c" "fl c = Fin c" "fl (2 * c) = Fin (2 * c)" "fl (3 * c) = Fin (3 * c)"
    and p: "1 \<le> period"
    and v: "\<forall>i<length values. isNaN (values ! i) \<or> finite_within c (values ! i)"
    and i: "i < length values"
  shows "isNaN (ema values period ! i) = isNaN (values ! i) \<and>
     (isNaN (values ! i) \<or> finite_within (2 * c) (ema values period ! i))"
proof -
  from multiplier_range [OF p] obtain \<mu> where
    \<mu>: "Fin 2 / (Fin (real period) + Fin 1) = Fin \<mu>" "0 \<le> \<mu>" "\<mu> \<le> 1" by blast
  from ema_run_bounded [OF c \<mu>(2,3) v i] show ?thesis
    unfolding ema_def Let_def \<mu>(1) .
qed

lemma fl_half_max:
  "fl (2 powi (e_max - 1)) = Fin (2 powi (e_max - 1))"
  "fl (2 * 2 powi (e_max - 1)) = Fin (2 * 2 powi (e_max - 1))"
  "fl (3 * 2 powi (e_max - 1)) = Fin (3 * 2 powi (e_max - 1))"
proof -
  have "(2::real) powi (51 + (e_max - 52)) = 2 powi 51 * 2 powi (e_max - 52)"
    by (rule power_int_add) simp
  moreover have "51 + (e_max - 52) = e_max - 1" by simp
  ultimately have c: "(2::real) powi (e_max - 1) = 2 powi 51 * 2 powi (e_max - 52)" by simp
  have k: "e_min - 52 \<le> e_max - 52" "e_max - 52 \<le> e_max - 52" by (simp_all add: e_min_def e_max_def)
  have "fl (real_of_int (2 ^ 51) * 2 powi (e_max - 52)) = Fin (real_of_int (2 ^ 51) * 2 powi (e_max - 52))"
    by (rule fl_exact [OF _ k]) simp
  then show "fl (2 powi (e_max - 1)) = Fin (2 powi (e_max - 1))" by (simp add: c)
  have "fl (real_of_int (2 ^ 52) * 2 powi (e_max - 52)) = Fin (real_of_int (2 ^ 52) * 2 powi (e_max - 52))"
    by (rule fl_exact [OF _ k]) simp
  then show "fl (2 * 2 powi (e_max - 1)) = Fin (2 * 2 powi (e_max - 1))" by (simp add: c)
  have "fl (real_of_int (3 * 2 ^ 51) * 2 powi (e_max - 52)) = Fin (real_of_int (3 * 2 ^ 51) * 2 powi (e_max - 52))"
    by (rule fl_exact [OF _ k]) simp
  then show "fl (3 * 2 powi (e_max - 1)) = Fin (3 * 2 powi (e_max - 1))" by (simp add: c)
qed

lemma fl_max_pow: "fl (2 powi e_max) = Fin (2 powi e_max)"
proof -
  have "(2::real) powi (e_max - 1 + 1) = 2 * 2 powi (e_max - 1)" by (rule powi_double)
  then have "(2::real) powi e_max = 2 * 2 powi (e_max - 1)" by simp
  with fl_half_max(2) show ?thesis by simp
qed

lemma ema_overflow_run:
  "ema [Fin (2 powi e_max), Fin (- (2 powi e_max)), Fin 0] 1 = [Fin (2 powi e_max), NInf, NaN]"
proof -
  have m: "Fin 2 / fl 2 = Fin 1"
    by (simp add: fl_two fl_one)
  have "(2::real) powi (e_max + 1) = 2 * 2 powi e_max" by (rule powi_double)
  then have "(2::real) powi (e_max + 1) \<le> 2 * 2 powi e_max" by simp
  from fl_overflow [OF this] have d: "fl (- (2 * 2 powi e_max)) = NInf"
    by (simp only: fl_neg uminus_number.simps)
  show ?thesis
    by (simp add: ema_def ema_step_def minus_number_def Let_def d m)
qed

text \<open>
  C10, as stated, fails when a step of the recurrence leaves the finite numbers. On
  \<open>[Infinity, Infinity]\<close> the second step computes
  \<open>(Infinity - Infinity) * multiplier + Infinity\<close>, which is not-a-number although
  the second input is not. Finite inputs do the same through an overflow: on
  \<open>[2^1023, -2^1023, 0]\<close> with period \<open>1\<close> the difference \<open>-2^1023 - 2^1023\<close>
  overflows to \<open>-Infinity\<close>, and the output at the defined input \<open>0\<close> is
  not-a-number.
\<close>

theorem ema_pattern_counterexample:
  "\<not> isNaN ([PInf, PInf] ! 1) \<and> isNaN (ema [PInf, PInf] 5 ! 1) \<and>
   \<not> isNaN ([Fin (2 powi e_max), Fin (- (2 powi e_max)), Fin 0] ! 2) \<and>
   isNaN (ema [Fin (2 powi e_max), Fin (- (2 powi e_max)), Fin 0] 1 ! 2)"
proof -
  have a: "isNaN (ema [PInf, PInf] 5 ! 1)"
    by (simp add: ema_def ema_step_def minus_number_def)
  have b: "isNaN (ema [Fin (2 powi e_max), Fin (- (2 powi e_max)), Fin 0] 1 ! 2)"
    unfolding ema_overflow_run by simp
  from a b show ?thesis by simp
qed

text \<open>
  C10 (amended). For every input series whose entries are not-a-number or finite of
  magnitude at most \<open>2^1022\<close>, and every period from \<open>1\<close> on, the output of
  \<^verbatim>\<open>ema\<close> has the length of its input and the same defined and undefined entries:
  \<open>output[i]\<close> is not-a-number if and only if \<open>input[i]\<close> is, at every index
  \<open>i\<close>. On such inputs \<^verbatim>\<open>ema\<close> does not extend a warm-up region.
\<close>

theorem ema_same_pattern:
  assumes "\<forall>v\<in>set values. isNaN v \<or> finite_within (2 powi (e_max - 1)) v"
    and "1 \<le> period"
  shows "length (ema values period) = length values \<and>
         (\<forall>i<length values. isNaN (ema values period ! i) = isNaN (values ! i))"
proof -
  from assms(1) have v: "\<forall>i<length values. isNaN (values ! i) \<or> finite_within (2 powi (e_max - 1)) (values ! i)"
    by simp
  have c: "(0::real) \<le> 2 powi (e_max - 1)" by simp
  from ema_bounded [OF c fl_half_max assms(2) v] show ?thesis by (simp add: ema_length)
qed

theorem ema_same_pattern_witness:
  "length (ema [NaN, Fin 1, NaN, Fin 3, Fin (- 2)] 5) = 5 \<and>
   isNaN (ema [NaN, Fin 1, NaN, Fin 3, Fin (- 2)] 5 ! 2) \<and>
   \<not> isNaN (ema [NaN, Fin 1, NaN, Fin 3, Fin (- 2)] 5 ! 4)"
proof -
  have "(2::real) powi 2 \<le> 2 powi (e_max - 1)"
    by (rule power_int_increasing) (simp_all add: e_max_def)
  then have b: "(4::real) \<le> 2 powi (e_max - 1)" by simp
  then have h: "\<forall>v\<in>set [NaN, Fin 1, NaN, Fin 3, Fin (- 2)].
      isNaN v \<or> finite_within (2 powi (e_max - 1)) v"
    by (simp add: finite_within_Fin)
  have p: "1 \<le> (5::nat)" by simp
  note t = ema_same_pattern [OF h p, THEN conjunct2, rule_format]
  from t [of 2] t [of 4] ema_same_pattern [OF h p] show ?thesis by simp
qed

section \<open>Properties of the indicator calculator\<close>

lemma hlc3_length: "length (hlc3 bars) = length bars"
  by (simp add: hlc3_def)

lemma sma_length: "length (sma values period) = length values"
  by (simp add: sma_def)

lemma meanDeviation_length: "length (meanDeviation values period) = length values"
  by (simp add: meanDeviation_def)

lemma rawCCI_length: "length (rawCCI bars period) = length bars"
  by (simp add: rawCCI_def hlc3_length Let_def)

text \<open>
  C8. On the empty bar sequence \<^verbatim>\<open>calculateCCI\<close> returns (no operation of it can
  raise), and each of its four output arrays is empty.
\<close>

theorem calculateCCI_empty:
  "calculateCCI [] period smoothing = \<lparr>cci = [], momentum = [], volume = [], avgVolume = []\<rparr>"
  by (simp add: calculateCCI_def rawCCI_def hlc3_def ema_def sma_def)

lemma rawCCI_nth:
  assumes "i < length bars"
  shows "rawCCI bars period ! i =
    (if isNaN (sma (hlc3 bars) period ! i) \<or> isNaN (meanDeviation (hlc3 bars) period ! i)
        \<or> meanDeviation (hlc3 bars) period ! i = Fin 0 then NaN
     else (hlc3 bars ! i - sma (hlc3 bars) period ! i)
          / (fl 0.015 * meanDeviation (hlc3 bars) period ! i))"
  using assms by (simp add: rawCCI_def hlc3_length Let_def)

lemma fl_literal_0015: "\<exists>c. fl 0.015 = Fin c \<and> 1 / 128 \<le> c \<and> c \<le> 1 / 2"
proof -
  have a: "fl (1 / 128) = Fin (1 / 128)" using fl_exact [of 1 "- 7"] by (simp add: e_min_def e_max_def)
  have b: "fl (1 / 2) = Fin (1 / 2)" using fl_exact [of 1 "- 1"] by (simp add: e_min_def e_max_def)
  have "(1::real) / 128 \<le> 0.015" "(0.015::real) \<le> 1 / 2" by simp_all
  from fl_between [OF this a b] show ?thesis .
qed

lemma fl_subnormal:
  assumes "\<bar>n\<bar> < 2 ^ 53"
  shows "fl (real_of_int n * 2 powi (e_min - 52)) = Fin (real_of_int n * 2 powi (e_min - 52))"
  by (rule fl_exact [OF assms]) (simp_all add: e_min_def e_max_def)

lemma subnormal_run:
  fixes u :: real
  assumes u: "u = 2 powi (e_min - 52)"
  shows "hlc3 [flat_bar 0 0, flat_bar (2 * u) 1] = [Fin 0, Fin (2 * u)]"
    and "sma [Fin 0, Fin (2 * u)] 2 ! Suc 0 = Fin u"
    and "meanDeviation [Fin 0, Fin (2 * u)] 2 ! Suc 0 = Fin u"
    and "fl 0.015 * Fin u = Fin 0"
    and "0 < u"
proof -
  show pos: "0 < u" by (simp add: u)
  have f1: "fl u = Fin u" using fl_subnormal [of 1] by (simp add: u)
  have f2: "fl (2 * u) = Fin (2 * u)" using fl_subnormal [of 2] by (simp add: u)
  have f4: "fl (4 * u) = Fin (4 * u)" using fl_subnormal [of 4] by (simp add: u)
  have f6: "fl (6 * u) = Fin (6 * u)" using fl_subnormal [of 6] by (simp add: u)
  have fm: "fl (- u) = Fin (- u)" by (simp add: fl_neg f1)
  show "hlc3 [flat_bar 0 0, flat_bar (2 * u) 1] = [Fin 0, Fin (2 * u)]"
    by (simp add: hlc3_def flat_bar_def fl_zero f2 f4 f6)
  show "sma [Fin 0, Fin (2 * u)] 2 ! Suc 0 = Fin u"
    by (simp add: sma_def array_slice_def Let_def fl_zero f1 f2)
  show "meanDeviation [Fin 0, Fin (2 * u)] 2 ! Suc 0 = Fin u"
    by (simp add: meanDeviation_def array_slice_def Let_def minus_Fin fl_zero f1 f2 fm
        abs_of_pos [OF pos])
  from fl_literal_0015 obtain c where c: "fl 0.015 = Fin c" "1 / 128 \<le> c" "c \<le> 1 / 2" by blast
  have "(2::real) powi (e_min - 53 + 1) = 2 * 2 powi (e_min - 53)" by (rule powi_double)
  moreover have "e_min - 53 + 1 = e_min - 52" by simp
  ultimately have h: "u = 2 * 2 powi (e_min - 53)" by (simp only: u)
  from c pos have "0 \<le> c * u" by simp
  moreover from c(3) pos have "c * u \<le> (1 / 2) * u" by (intro mult_right_mono) simp_all
  with h have "c * u \<le> 2 powi (e_min - 53)" by simp
  ultimately have "fl (c * u) = Fin 0" by (rule fl_underflow)
  then show "fl 0.015 * Fin u = Fin 0" by (simp only: c(1) times_number.simps)
qed

text \<open>
  C7. The guard of the raw oscillator tests the mean deviation, the division is by
  \<open>0.015 * meanDev\<close>. On two bars with all prices \<open>0\<close>, then all prices
  \<open>2^-1073\<close>, and period \<open>2\<close>, the mean deviation at index \<open>1\<close> is \<open>2^-1074\<close>,
  the smallest positive number, so the guard lets it pass; the product
  \<open>0.015 * 2^-1074\<close> rounds to \<open>0\<close>, the division is by zero, and the raw value
  and the \<open>cci\<close> value at index \<open>1\<close> are \<open>Infinity\<close>.
\<close>

theorem rawCCI_zero_divisor:
  "(let bars = [flat_bar 0 0, flat_bar (2 powi (e_min - 51)) 1];
        tp = hlc3 bars ! 1;
        tpSma = sma (hlc3 bars) 2 ! 1;
        meanDev = meanDeviation (hlc3 bars) 2 ! 1
    in \<not> isNaN tpSma \<and> \<not> isNaN meanDev \<and> meanDev \<noteq> Fin 0 \<and>
       meanDev = Fin (2 powi (e_min - 52)) \<and>
       fl 0.015 * meanDev = Fin 0 \<and>
       rawCCI bars 2 ! 1 = (tp - tpSma) / (fl 0.015 * meanDev) \<and>
       rawCCI bars 2 ! 1 = PInf \<and>
       cci (calculateCCI bars 2 5) ! 1 = PInf)"
proof -
  define u :: real where "u = 2 powi (e_min - 52)"
  define bars where "bars = [flat_bar 0 0, flat_bar (2 powi (e_min - 51)) 1]"
  note r = subnormal_run [OF u_def]
  have "(2::real) powi (e_min - 52 + 1) = 2 * 2 powi (e_min - 52)" by (rule powi_double)
  moreover have "e_min - 52 + 1 = e_min - 51" by simp
  ultimately have "(2::real) powi (e_min - 51) = 2 * u" by (simp only: u_def)
  then have b: "bars = [flat_bar 0 0, flat_bar (2 * u) 1]" by (simp only: bars_def)
  have len: "length bars = 2" by (simp add: bars_def)
  have h: "hlc3 bars = [Fin 0, Fin (2 * u)]" by (simp only: b r(1))
  have tp: "hlc3 bars ! 1 = Fin (2 * u)" by (simp add: h)
  have sm: "sma (hlc3 bars) 2 ! 1 = Fin u" using r(2) by (simp add: h)
  have md: "meanDeviation (hlc3 bars) 2 ! 1 = Fin u" using r(3) by (simp add: h)
  have nz: "Fin u \<noteq> Fin 0" using r(5) by simp
  have f1: "fl u = Fin u" using fl_subnormal [of 1] by (simp add: u_def)
  have q: "(Fin (2 * u) - Fin u) / Fin 0 = PInf" using r(5) by (simp add: minus_Fin f1)
  have raw: "rawCCI bars 2 ! 1 = (hlc3 bars ! 1 - sma (hlc3 bars) 2 ! 1)
      / (fl 0.015 * meanDeviation (hlc3 bars) 2 ! 1)"
  proof -
    have "1 < length bars" by (simp add: len)
    from rawCCI_nth [OF this, of 2] show ?thesis
      by (simp only: sm md isNaN.simps nz simp_thms if_False)
  qed
  have raw1: "rawCCI bars 2 ! 1 = PInf" by (simp only: raw tp sm md r(4) q)
  have "isNaN (sma (hlc3 bars) 2 ! 0)" by (simp add: h sma_def)
  moreover have "0 < length bars" by (simp add: len)
  ultimately have raw0: "rawCCI bars 2 ! 0 = NaN" by (simp add: rawCCI_nth)
  have l1: "length (rawCCI bars 2) = 2" by (simp add: rawCCI_length len)
  have a0: "ema (rawCCI bars 2) 5 ! 0 = NaN" by (simp add: ema_rec l1 raw0)
  have a1: "ema (rawCCI bars 2) 5 ! 1 = PInf"
  proof -
    have "1 < length (rawCCI bars 2)" by (simp add: l1)
    from ema_rec [OF this, of 5] show ?thesis
      by (simp only: diff_self_eq_0 a0 raw1 isNaN.simps if_True one_neq_zero if_False)
  qed
  have l2: "length (ema (rawCCI bars 2) 5) = 2" by (simp add: ema_length l1)
  have c0: "ema (ema (rawCCI bars 2) 5) 2 ! 0 = NaN" by (simp add: ema_rec l2 a0)
  have c1: "ema (ema (rawCCI bars 2) 5) 2 ! 1 = PInf"
  proof -
    have "1 < length (ema (rawCCI bars 2) 5)" by (simp add: l2)
    from ema_rec [OF this, of 2] show ?thesis
      by (simp only: diff_self_eq_0 c0 a1 isNaN.simps if_True one_neq_zero if_False)
  qed
  have cc: "cci (calculateCCI bars 2 5) ! 1 = PInf"
    by (simp only: calculateCCI_def Let_def Indicators.simps c1)
  have fz: "fl 0.015 * meanDeviation (hlc3 bars) 2 ! 1 = Fin 0" by (simp only: md r(4))
  have mu: "meanDeviation (hlc3 bars) 2 ! 1 = Fin (2 powi (e_min - 52))"
    by (simp only: md u_def)
  have n1: "\<not> isNaN (sma (hlc3 bars) 2 ! 1)" by (simp only: sm isNaN.simps simp_thms)
  have n2: "\<not> isNaN (meanDeviation (hlc3 bars) 2 ! 1)" by (simp only: md isNaN.simps simp_thms)
  have n3: "meanDeviation (hlc3 bars) 2 ! 1 \<noteq> Fin 0" by (simp only: md nz simp_thms)
  show ?thesis
    unfolding Let_def bars_def [symmetric]
    by (intro conjI n1 n2 n3 mu fz raw raw1 cc)
qed

section \<open>Properties of the pivot detector\<close>

lemma not_gt_iff_le: "\<not> isNaN a \<Longrightarrow> \<not> isNaN b \<Longrightarrow> (\<not> a > b) = (a \<le> b)"
  by (cases a; cases b) (auto simp add: less_eq_number_def)

lemma not_lt_iff_ge: "\<not> isNaN a \<Longrightarrow> \<not> isNaN b \<Longrightarrow> (\<not> a < b) = (a \<ge> b)"
  by (cases a; cases b) (auto simp add: less_eq_number_def)

lemma number_antisym: "(a::number) \<le> b \<Longrightarrow> b \<le> a \<Longrightarrow> a = b"
  by (cases a; cases b) (auto simp add: less_eq_number_def)

lemma guard_le:
  "\<not> isNaN a \<Longrightarrow> (\<not> isNaN b \<and> \<not> a > b) = (\<not> isNaN b \<and> a \<le> b)"
  using not_gt_iff_le [of a b] by blast

lemma guard_ge:
  "\<not> isNaN a \<Longrightarrow> (\<not> isNaN b \<and> \<not> a < b) = (\<not> isNaN b \<and> a \<ge> b)"
  using not_lt_iff_ge [of a b] by blast

lemma window_iff: "(\<forall>j\<in>set [1..<Suc l]. P j) = (\<forall>j. 1 \<le> j \<and> j \<le> l \<longrightarrow> P j)"
  by (auto simp add: less_Suc_eq_le)

lemma pivot_left_run:
  "foldl (pivot_left values i) (isLow, isHigh) js =
     (isLow \<and> (\<forall>j\<in>set js. \<not> isNaN (values ! (i - j)) \<and> \<not> values ! i > values ! (i - j)),
      isHigh \<and> (\<forall>j\<in>set js. \<not> isNaN (values ! (i - j)) \<and> \<not> values ! i < values ! (i - j)))"
  by (induction js arbitrary: isLow isHigh) (auto simp add: pivot_left_def)

lemma pivot_right_run:
  "foldl (pivot_right values i) (isLow, isHigh) js =
     (isLow \<and> (\<forall>j\<in>set js. \<not> isNaN (values ! (i + j)) \<and> \<not> values ! i > values ! (i + j)),
      isHigh \<and> (\<forall>j\<in>set js. \<not> isNaN (values ! (i + j)) \<and> \<not> values ! i < values ! (i + j)))"
  by (induction js arbitrary: isLow isHigh) (auto simp add: pivot_right_def)

lemma pivot_step_eq:
  "pivot_step values l r p i =
     \<lparr>lows = (if low_at values l r i then lows p @ [i] else lows p),
      highs = (if high_at values l r i then highs p @ [i] else highs p)\<rparr>"
  by (simp add: pivot_step_def pivot_left_run pivot_right_run low_at_def high_at_def)

lemma pivot_run:
  "foldl (pivot_step values l r) p is =
     \<lparr>lows = lows p @ filter (low_at values l r) is,
      highs = highs p @ filter (high_at values l r) is\<rparr>"
  by (induction "is" arbitrary: p) (simp_all add: pivot_step_eq)

lemma findPivots_eq:
  "findPivots values l r =
     \<lparr>lows = filter (low_at values l r) [l..<length values - r],
      highs = filter (high_at values l r) [l..<length values - r]\<rparr>"
  by (simp add: findPivots_def pivot_run)

lemma lows_iff:
  "i \<in> set (lows (findPivots values l r)) \<longleftrightarrow>
     l \<le> i \<and> i + r < length values \<and> \<not> isNaN (values ! i) \<and>
     (\<forall>j. 1 \<le> j \<and> j \<le> l \<longrightarrow> \<not> isNaN (values ! (i - j)) \<and> values ! i \<le> values ! (i - j)) \<and>
     (\<forall>j. 1 \<le> j \<and> j \<le> r \<longrightarrow> \<not> isNaN (values ! (i + j)) \<and> values ! i \<le> values ! (i + j))"
proof -
  have "low_at values l r i \<longleftrightarrow> \<not> isNaN (values ! i) \<and>
     (\<forall>j. 1 \<le> j \<and> j \<le> l \<longrightarrow> \<not> isNaN (values ! (i - j)) \<and> values ! i \<le> values ! (i - j)) \<and>
     (\<forall>j. 1 \<le> j \<and> j \<le> r \<longrightarrow> \<not> isNaN (values ! (i + j)) \<and> values ! i \<le> values ! (i + j))"
    unfolding low_at_def window_iff by (cases "isNaN (values ! i)") (simp_all add: guard_le)
  moreover have "(i < length values - r) = (i + r < length values)" by auto
  ultimately show ?thesis by (simp add: findPivots_eq)
qed

lemma highs_iff:
  "i \<in> set (highs (findPivots values l r)) \<longleftrightarrow>
     l \<le> i \<and> i + r < length values \<and> \<not> isNaN (values ! i) \<and>
     (\<forall>j. 1 \<le> j \<and> j \<le> l \<longrightarrow> \<not> isNaN (values ! (i - j)) \<and> values ! i \<ge> values ! (i - j)) \<and>
     (\<forall>j. 1 \<le> j \<and> j \<le> r \<longrightarrow> \<not> isNaN (values ! (i + j)) \<and> values ! i \<ge> values ! (i + j))"
proof -
  have "high_at values l r i \<longleftrightarrow> \<not> isNaN (values ! i) \<and>
     (\<forall>j. 1 \<le> j \<and> j \<le> l \<longrightarrow> \<not> isNaN (values ! (i - j)) \<and> values ! i \<ge> values ! (i - j)) \<and>
     (\<forall>j. 1 \<le> j \<and> j \<le> r \<longrightarrow> \<not> isNaN (values ! (i + j)) \<and> values ! i \<ge> values ! (i + j))"
    unfolding high_at_def window_iff by (cases "isNaN (values ! i)") (simp_all add: guard_ge)
  moreover have "(i < length values - r) = (i + r < length values)" by auto
  ultimately show ?thesis by (simp add: findPivots_eq)
qed

text \<open>
  C1, as stated, fails: the comparisons that clear the flags are strict, so a candidate is
  disqualified only by a neighbour on the wrong side of it, and a neighbour equal to it
  leaves it a pivot. In \<open>[2, 1, 1]\<close> with both lookbacks \<open>1\<close>, index \<open>1\<close> is
  reported as a low although its right neighbour is not greater.
\<close>

theorem findPivots_strict_counterexample:
  "1 \<in> set (lows (findPivots [Fin 2, Fin 1, Fin 1] 1 1)) \<and>
   \<not> ([Fin 2, Fin 1, Fin 1] ! 1 < [Fin 2, Fin 1, Fin 1] ! (1 + 1))"
  by code_simp

text \<open>
  C1 (amended). For every numeric series and lookbacks, \<^verbatim>\<open>findPivots\<close> reports index
  \<open>i\<close> as a low pivot if and only if \<open>i\<close> lies in
  \<open>[lookbackLeft, n - 1 - lookbackRight]\<close>, \<open>values[i]\<close> is defined, every neighbour in
  the left window \<open>[i - lookbackLeft, i - 1]\<close> and the right window
  \<open>[i + 1, i + lookbackRight]\<close> is defined, and \<open>values[i]\<close> is less than or equal to
  every one of those neighbours; symmetrically (greater than or equal) for a high pivot.
\<close>

theorem findPivots_characterisation:
  "(i \<in> set (lows (findPivots values lookbackLeft lookbackRight)) \<longleftrightarrow>
      lookbackLeft \<le> i \<and> i + lookbackRight < length values \<and> \<not> isNaN (values ! i) \<and>
      (\<forall>j. 1 \<le> j \<and> j \<le> lookbackLeft \<longrightarrow>
           \<not> isNaN (values ! (i - j)) \<and> values ! i \<le> values ! (i - j)) \<and>
      (\<forall>j. 1 \<le> j \<and> j \<le> lookbackRight \<longrightarrow>
           \<not> isNaN (values ! (i + j)) \<and> values ! i \<le> values ! (i + j))) \<and>
   (i \<in> set (highs (findPivots values lookbackLeft lookbackRight)) \<longleftrightarrow>
      lookbackLeft \<le> i \<and> i + lookbackRight < length values \<and> \<not> isNaN (values ! i) \<and>
      (\<forall>j. 1 \<le> j \<and> j \<le> lookbackLeft \<longrightarrow>
           \<not> isNaN (values ! (i - j)) \<and> values ! i \<ge> values ! (i - j)) \<and>
      (\<forall>j. 1 \<le> j \<and> j \<le> lookbackRight \<longrightarrow>
           \<not> isNaN (values ! (i + j)) \<and> values ! i \<ge> values ! (i + j)))"
  using lows_iff [of i "values" lookbackLeft lookbackRight]
    highs_iff [of i "values" lookbackLeft lookbackRight]
  by blast

lemma window_one: "(\<forall>j. 1 \<le> j \<and> j \<le> Suc 0 \<longrightarrow> P j) = P (Suc 0)"
  by (auto simp add: le_antisym)

theorem findPivots_characterisation_witness:
  "1 \<in> set (lows (findPivots [Fin 2, Fin 1, Fin 3] 1 1)) \<and>
   1 \<notin> set (highs (findPivots [Fin 2, Fin 1, Fin 3] 1 1))"
  using findPivots_characterisation [of 1 "[Fin 2, Fin 1, Fin 3]" 1 1]
  by (simp add: window_one less_eq_number_def)

text \<open>
  C2, as stated, fails for the same reason: in the flat series \<open>[1, 1, 1]\<close> with both
  lookbacks \<open>1\<close>, index \<open>1\<close> is in the list of lows and in the list of highs.
\<close>

theorem findPivots_disjoint_counterexample:
  "1 \<in> set (lows (findPivots [Fin 1, Fin 1, Fin 1] 1 1)) \<and>
   1 \<in> set (highs (findPivots [Fin 1, Fin 1, Fin 1] 1 1))"
  by code_simp

text \<open>
  C2 (amended). For every numeric series and lookbacks, an index whose value differs from
  the value of at least one neighbour in its left or right window is not in both lists
  returned by \<^verbatim>\<open>findPivots\<close>: an index is a low and a high at once only when all its
  window neighbours equal it.
\<close>

theorem lows_highs_disjoint_off_plateau:
  assumes "(\<exists>j. 1 \<le> j \<and> j \<le> lookbackLeft \<and> values ! (i - j) \<noteq> values ! i) \<or>
           (\<exists>j. 1 \<le> j \<and> j \<le> lookbackRight \<and> values ! (i + j) \<noteq> values ! i)"
  shows "\<not> (i \<in> set (lows (findPivots values lookbackLeft lookbackRight)) \<and>
            i \<in> set (highs (findPivots values lookbackLeft lookbackRight)))"
proof
  assume both: "i \<in> set (lows (findPivots values lookbackLeft lookbackRight)) \<and>
            i \<in> set (highs (findPivots values lookbackLeft lookbackRight))"
  from both have lo: "\<And>j. 1 \<le> j \<and> j \<le> lookbackLeft \<Longrightarrow> values ! i \<le> values ! (i - j)"
    and ro: "\<And>j. 1 \<le> j \<and> j \<le> lookbackRight \<Longrightarrow> values ! i \<le> values ! (i + j)"
    unfolding lows_iff by blast+
  from both have lh: "\<And>j. 1 \<le> j \<and> j \<le> lookbackLeft \<Longrightarrow> values ! (i - j) \<le> values ! i"
    and rh: "\<And>j. 1 \<le> j \<and> j \<le> lookbackRight \<Longrightarrow> values ! (i + j) \<le> values ! i"
    unfolding highs_iff by blast+
  from assms show False
  proof
    assume "\<exists>j. 1 \<le> j \<and> j \<le> lookbackLeft \<and> values ! (i - j) \<noteq> values ! i"
    then obtain j where j: "1 \<le> j \<and> j \<le> lookbackLeft" and ne: "values ! (i - j) \<noteq> values ! i"
      by blast
    from number_antisym [OF lo [OF j] lh [OF j]] ne show False by simp
  next
    assume "\<exists>j. 1 \<le> j \<and> j \<le> lookbackRight \<and> values ! (i + j) \<noteq> values ! i"
    then obtain j where j: "1 \<le> j \<and> j \<le> lookbackRight" and ne: "values ! (i + j) \<noteq> values ! i"
      by blast
    from number_antisym [OF ro [OF j] rh [OF j]] ne show False by simp
  qed
qed

theorem lows_highs_disjoint_off_plateau_witness:
  "[Fin 2, Fin 1, Fin 1] ! (1 - 1) \<noteq> [Fin 2, Fin 1, Fin 1] ! 1 \<and>
   \<not> (1 \<in> set (lows (findPivots [Fin 2, Fin 1, Fin 1] 1 1)) \<and>
      1 \<in> set (highs (findPivots [Fin 2, Fin 1, Fin 1] 1 1)))"
proof -
  have h: "(\<exists>j. 1 \<le> j \<and> j \<le> (1::nat) \<and> [Fin 2, Fin 1, Fin 1] ! (1 - j) \<noteq> [Fin 2, Fin 1, Fin 1] ! 1) \<or>
           (\<exists>j. 1 \<le> j \<and> j \<le> (1::nat) \<and> [Fin 2, Fin 1, Fin 1] ! (1 + j) \<noteq> [Fin 2, Fin 1, Fin 1] ! 1)"
    by (rule disjI1, rule exI [of _ 1]) simp
  from lows_highs_disjoint_off_plateau [OF h] show ?thesis by simp
qed

section \<open>Properties of the divergence detector\<close>

lemma le_not_NaN: "(a::number) \<le> b \<Longrightarrow> \<not> isNaN a \<and> \<not> isNaN b"
  by (cases a; cases b) (auto simp add: less_eq_number_def)

text \<open>A number that is not negative: \<open>Infinity\<close> or a finite value from \<open>0\<close> on.\<close>

lemma nonneg_cases:
  "Fin 0 \<le> v \<longleftrightarrow> v = PInf \<or> (\<exists>y. v = Fin y \<and> 0 \<le> y)"
  by (cases v) (simp_all add: number_le_simps)

lemma nonneg_fl: "0 \<le> x \<Longrightarrow> Fin 0 \<le> fl x"
  using fl_sign_pos [of x] by (auto simp add: nonneg_cases)

lemma nonneg_add: "Fin 0 \<le> a \<Longrightarrow> Fin 0 \<le> b \<Longrightarrow> Fin 0 \<le> a + b"
  by (cases a; cases b) (simp_all add: number_le_simps nonneg_fl)

lemma abs_scaled: "\<bar>priceDiff\<bar> * Fin 100 = NaN \<or> Fin 0 \<le> \<bar>priceDiff\<bar> * Fin 100"
  by (cases priceDiff) (simp_all add: number_le_simps nonneg_fl)

lemma abs_divided: "\<bar>cciDiff\<bar> / Fin 30 = NaN \<or> Fin 0 \<le> \<bar>cciDiff\<bar> / Fin 30"
  by (cases cciDiff) (simp_all add: number_le_simps nonneg_fl)

lemma score_range:
  assumes "x = NaN \<or> Fin 0 \<le> x"
  shows "Math_min (Fin 3.0) x = NaN \<or> Fin 0 \<le> Math_min (Fin 3.0) x"
  using assms by (cases x) (auto simp add: Math_min_def number_le_simps)

lemma bonus_nonneg: "Fin 0 \<le> (if b then Fin c else Fin 0) \<longleftrightarrow> (b \<longrightarrow> 0 \<le> c)"
  by (simp add: number_le_simps)

lemma NaN_plus: "NaN + a = NaN" "a + NaN = NaN"
  by (cases a; simp)+

lemma min10_range:
  assumes "Fin 0 \<le> t"
  shows "Fin 0 \<le> Math_min (Fin 10) t \<and> Math_min (Fin 10) t \<le> Fin 10"
  using assms by (cases t) (auto simp add: Math_min_def number_le_simps)

lemma calcStrength_range:
  "calcStrength priceDiff cciDiff isExtreme highVolume momentumConfirm = NaN \<or>
   (Fin 0 \<le> calcStrength priceDiff cciDiff isExtreme highVolume momentumConfirm \<and>
    calcStrength priceDiff cciDiff isExtreme highVolume momentumConfirm \<le> Fin 10)"
proof -
  let ?p = "Math_min (Fin 3.0) (\<bar>priceDiff\<bar> * Fin 100)"
  let ?c = "Math_min (Fin 3.0) (\<bar>cciDiff\<bar> / Fin 30)"
  let ?e = "if isExtreme then Fin 1.5 else Fin 0"
  let ?v = "if highVolume then Fin 1.0 else Fin 0"
  let ?m = "if momentumConfirm then Fin 1.0 else Fin 0"
  have e: "Fin 0 \<le> ?e" and v: "Fin 0 \<le> ?v" and m: "Fin 0 \<le> ?m"
    by (simp_all add: number_le_simps)
  have cs: "calcStrength priceDiff cciDiff isExtreme highVolume momentumConfirm
      = Math_min (Fin 10) (?p + ?c + ?e + ?v + ?m)"
    by (simp add: calcStrength_def Let_def)
  from score_range [OF abs_scaled [of priceDiff]] score_range [OF abs_divided [of cciDiff]]
  consider "?p = NaN" | "?c = NaN" | "Fin 0 \<le> ?p" "Fin 0 \<le> ?c" by blast
  then show ?thesis
  proof cases
    case 1
    then have "?p + ?c + ?e + ?v + ?m = NaN" by (simp only: NaN_plus)
    then show ?thesis by (simp only: cs) (simp add: Math_min_def)
  next
    case 2
    then have "?p + ?c + ?e + ?v + ?m = NaN" by (simp only: NaN_plus)
    then show ?thesis by (simp only: cs) (simp add: Math_min_def)
  next
    case 3
    from nonneg_add [OF nonneg_add [OF nonneg_add [OF nonneg_add [OF 3] e] v] m]
    have "Fin 0 \<le> ?p + ?c + ?e + ?v + ?m" .
    from min10_range [OF this] show ?thesis by (simp only: cs) blast
  qed
qed

lemma run_loop_Inl: "run_loop body (Inl e) idxs = Inl e"
  by (induction idxs) (simp_all add: run_loop_def)

lemma run_loop_Cons:
  "run_loop body (Inr st) (i # idxs) = run_loop body (body st i) idxs"
  by (simp add: run_loop_def)

lemma run_loop_emits:
  assumes step: "\<And>divs i divs'. i \<in> set idxs \<Longrightarrow> body divs i = Inr divs' \<Longrightarrow>
                   \<exists>new. divs' = divs @ new \<and> (\<forall>d\<in>set new. Q i d)"
    and run: "run_loop body (Inr divs0) idxs = Inr ds"
  shows "\<forall>d\<in>set ds. d \<in> set divs0 \<or> (\<exists>i\<in>set idxs. Q i d)"
  using step run
proof (induction idxs arbitrary: divs0)
  case Nil
  then show ?case by (simp add: run_loop_def)
next
  case (Cons i idxs)
  show ?case
  proof (cases "body divs0 i")
    case (Inl e)
    with Cons.prems(2) show ?thesis by (simp add: run_loop_Cons run_loop_Inl)
  next
    case (Inr divs1)
    from Cons.prems(1) [of i divs0 divs1] Inr
    obtain new where new: "divs1 = divs0 @ new" "\<forall>d\<in>set new. Q i d" by auto
    from Cons.prems(2) Inr have "run_loop body (Inr divs1) idxs = Inr ds"
      by (simp add: run_loop_Cons)
    with Cons.IH [of divs1] Cons.prems(1)
    have "\<forall>d\<in>set ds. d \<in> set divs1 \<or> (\<exists>i\<in>set idxs. Q i d)" by simp
    with new show ?thesis by auto
  qed
qed

lemma low_step_skip:
  "int (cciLows ! i) - int (cciLows ! (i - 1)) < 5 \<or> int (cciLows ! i) - int (cciLows ! (i - 1)) > 60
   \<Longrightarrow> low_step bars cci' momentum' volume' avgVolume' minStrength cciLows divs i = Inr divs"
  by (simp add: low_step_def Let_def)

lemma high_step_skip:
  "int (cciHighs ! i) - int (cciHighs ! (i - 1)) < 5 \<or> int (cciHighs ! i) - int (cciHighs ! (i - 1)) > 60
   \<Longrightarrow> high_step bars cci' momentum' volume' avgVolume' minStrength cciHighs divs i = Inr divs"
  by (simp add: high_step_def Let_def)

lemma low_step_emits:
  assumes "low_step bars cci' momentum' volume' avgVolume' minStrength cciLows divs i = Inr divs'"
    and i: "1 \<le> i" "i < length cciLows"
  shows "\<exists>new. divs' = divs @ new \<and>
           (\<forall>d\<in>set new. emitted_by bars cci' momentum' volume' avgVolume' minStrength True cciLows i d)"
proof (cases "int (cciLows ! i) - int (cciLows ! (i - 1)) < 5
    \<or> int (cciLows ! i) - int (cciLows ! (i - 1)) > 60")
  case True
  with assms(1) have "divs' = divs" by (simp add: low_step_skip)
  then show ?thesis by simp
next
  case False
  from assms(1) False have b: "cciLows ! i < length bars"
    by (simp add: low_step_def Let_def split: if_splits)
  from assms(1) False b i show ?thesis
    by (auto simp add: low_step_def Let_def emitted_by_def mkDivergence_def split: if_splits)
qed

lemma high_step_emits:
  assumes "high_step bars cci' momentum' volume' avgVolume' minStrength cciHighs divs i = Inr divs'"
    and i: "1 \<le> i" "i < length cciHighs"
  shows "\<exists>new. divs' = divs @ new \<and>
           (\<forall>d\<in>set new. emitted_by bars cci' momentum' volume' avgVolume' minStrength False cciHighs i d)"
proof (cases "int (cciHighs ! i) - int (cciHighs ! (i - 1)) < 5
    \<or> int (cciHighs ! i) - int (cciHighs ! (i - 1)) > 60")
  case True
  with assms(1) have "divs' = divs" by (simp add: high_step_skip)
  then show ?thesis by simp
next
  case False
  from assms(1) False have b: "cciHighs ! i < length bars"
    by (simp add: high_step_def Let_def split: if_splits)
  from assms(1) False b i show ?thesis
    by (auto simp add: high_step_def Let_def emitted_by_def mkDivergence_def split: if_splits)
qed

lemma collect_emits:
  assumes "collect bars cci' momentum' volume' avgVolume' minStrength = Inr ds"
    and "d \<in> set ds"
  shows "(\<exists>i. emitted_by bars cci' momentum' volume' avgVolume' minStrength True
                (lows (findPivots cci' 5 5)) i d) \<or>
         (\<exists>i. emitted_by bars cci' momentum' volume' avgVolume' minStrength False
                (highs (findPivots cci' 5 5)) i d)"
proof -
  let ?lows = "lows (findPivots cci' 5 5)" and ?highs = "highs (findPivots cci' 5 5)"
  let ?low = "low_step bars cci' momentum' volume' avgVolume' minStrength ?lows"
  let ?high = "high_step bars cci' momentum' volume' avgVolume' minStrength ?highs"
  from assms(1) have run: "run_loop ?high (run_loop ?low (Inr []) [1..<length ?lows])
      [1..<length ?highs] = Inr ds"
    by (simp add: collect_def Let_def)
  show ?thesis
  proof (cases "run_loop ?low (Inr []) [1..<length ?lows]")
    case (Inl e)
    with run show ?thesis by (simp add: run_loop_Inl)
  next
    case (Inr a)
    have la: "\<forall>d\<in>set a. d \<in> set [] \<or> (\<exists>i\<in>set [1..<length ?lows].
        emitted_by bars cci' momentum' volume' avgVolume' minStrength True ?lows i d)"
      by (rule run_loop_emits [OF _ Inr]) (rule low_step_emits, auto)
    from run Inr have "run_loop ?high (Inr a) [1..<length ?highs] = Inr ds" by simp
    then have "\<forall>d\<in>set ds. d \<in> set a \<or> (\<exists>i\<in>set [1..<length ?highs].
        emitted_by bars cci' momentum' volume' avgVolume' minStrength False ?highs i d)"
      by (rule run_loop_emits [rotated]) (rule high_step_emits, auto)
    then have hb: "\<forall>d\<in>set ds. d \<in> set a \<or>
        (\<exists>i. emitted_by bars cci' momentum' volume' avgVolume' minStrength False ?highs i d)"
      by blast
    from la have "\<forall>d\<in>set a.
        \<exists>i. emitted_by bars cci' momentum' volume' avgVolume' minStrength True ?lows i d" by auto
    with hb assms(2) show ?thesis by blast
  qed
qed

lemma detect_filter:
  assumes "detectDivergences bars cci' momentum' volume' avgVolume' minStrength = Inr ds"
  shows "\<exists>all. collect bars cci' momentum' volume' avgVolume' minStrength = Inr all \<and>
           ds = filter (\<lambda>d. timestamp d \<ge> recentTimestamp bars) all"
  using assms by (auto simp add: detectDivergences_def split: sum.splits)

lemma detect_emits:
  assumes "detectDivergences bars cci' momentum' volume' avgVolume' minStrength = Inr ds"
    and "d \<in> set ds"
  shows "(\<exists>i. emitted_by bars cci' momentum' volume' avgVolume' minStrength True
                (lows (findPivots cci' 5 5)) i d) \<or>
         (\<exists>i. emitted_by bars cci' momentum' volume' avgVolume' minStrength False
                (highs (findPivots cci' 5 5)) i d)"
proof -
  from detect_filter [OF assms(1)] obtain all
    where "collect bars cci' momentum' volume' avgVolume' minStrength = Inr all"
      and "ds = filter (\<lambda>d. timestamp d \<ge> recentTimestamp bars) all" by blast
  with assms(2) collect_emits [of bars cci' momentum' volume' avgVolume' minStrength all d]
  show ?thesis by simp
qed

lemma recentTimestamp_nonempty:
  assumes "bars \<noteq> []"
  shows "recentTimestamp bars = bar_t (bars ! nat (max 0 (int (length bars) - 15)))"
proof -
  from assms have "0 < length bars" by simp
  then have "nat (max 0 (int (length bars) - 15)) < length bars" by linarith
  then show ?thesis by (simp add: recentTimestamp_def Let_def)
qed

lemma ex_pivots: "findPivots (ex_cci 17) 5 5 = \<lparr>lows = [5, 11], highs = [6, 7, 8, 9, 10]\<rparr>"
  by code_simp

lemma ex_detect:
  "detectDivergences (ex_bars 17) (ex_cci 17) (replicate 17 (Fin 1)) (replicate 17 (Fin 2))
     (replicate 17 (Fin 1)) (Fin 3) = Inr [ex_divergence]"
  by code_simp

lemma ex_stale_removed:
  "collect (ex_bars 32) (ex_cci 32) (replicate 32 (Fin 1)) (replicate 32 (Fin 2))
     (replicate 32 (Fin 1)) (Fin 3) = Inr [ex_divergence] \<and>
   detectDivergences (ex_bars 32) (ex_cci 32) (replicate 32 (Fin 1)) (replicate 32 (Fin 2))
     (replicate 32 (Fin 1)) (Fin 3) = Inr []"
  by code_simp

text \<open>
  C3. For every input to \<^verbatim>\<open>detectDivergences\<close> on which it returns, every divergence
  in the returned list has a strength in the closed interval \<open>[0, 10]\<close>, and that
  strength is \<open>min(10, priceScore + oscillatorScore + bonuses)\<close> of an adjacent pair
  of pivots (lows for the bullish types, highs for the bearish ones), with
  \<open>priceScore = min(3.0, |priceDiff| * 100)\<close> for the relative price difference of
  the two pivot bars, \<open>oscillatorScore = min(3.0, |cciDiff| / 30)\<close> for the difference
  of the oscillator at the two pivots, and the bonuses \<open>1.5\<close> (oscillator at the current
  pivot below \<open>-100\<close> for lows, above \<open>100\<close> for highs), \<open>1.0\<close> (volume confirmed) and \<open>1.0\<close> (momentum
  confirmed).
\<close>

theorem strength_in_range:
  assumes "detectDivergences bars cci' momentum' volume' avgVolume' minStrength = Inr ds"
    and "d \<in> set ds"
  shows "Fin 0 \<le> strength d \<and> strength d \<le> Fin 10 \<and>
    (\<exists>pivots i.
       (pivots = lows (findPivots cci' 5 5) \<and> dtype d \<in> {REG_BULL, HID_BULL} \<or>
        pivots = highs (findPivots cci' 5 5) \<and> dtype d \<in> {REG_BEAR, HID_BEAR}) \<and>
       1 \<le> i \<and> i < length pivots \<and>
       (let low = (dtype d \<in> {REG_BULL, HID_BULL});
            currIdx = pivots ! i;
            prevIdx = pivots ! (i - 1);
            currCCI = num_at cci' currIdx;
            prevCCI = num_at cci' prevIdx;
            currPrice = (if low then bar_l (bars ! currIdx) else bar_h (bars ! currIdx));
            prevPrice = (if low then bar_l (bars ! prevIdx) else bar_h (bars ! prevIdx));
            priceDiff = (if dtype d = HID_BEAR then (prevPrice - currPrice) / prevPrice
                         else (currPrice - prevPrice) / prevPrice);
            cciDiff = (if dtype d = REG_BULL \<or> dtype d = HID_BEAR then currCCI - prevCCI
                       else prevCCI - currCCI);
            isExtreme = (if low then currCCI < Fin (- 100) else currCCI > Fin 100);
            priceScore = Math_min (Fin 3.0) (\<bar>priceDiff\<bar> * Fin 100);
            cciScore = Math_min (Fin 3.0) (\<bar>cciDiff\<bar> / Fin 30)
        in volumeConfirmed d = (num_at volume' currIdx > num_at avgVolume' currIdx * fl 1.2) \<and>
           momentumConfirmed d = (if low then num_at momentum' currIdx > Fin 0
                                  else num_at momentum' currIdx < Fin 0) \<and>
           strength d =
             Math_min (Fin 10)
               (priceScore + cciScore
                + (if isExtreme then Fin 1.5 else Fin 0)
                + (if volumeConfirmed d then Fin 1.0 else Fin 0)
                + (if momentumConfirmed d then Fin 1.0 else Fin 0))))"
proof -
  from detect_emits [OF assms]
  consider i where "emitted_by bars cci' momentum' volume' avgVolume' minStrength True
                (lows (findPivots cci' 5 5)) i d"
    | i where "emitted_by bars cci' momentum' volume' avgVolume' minStrength False
                (highs (findPivots cci' 5 5)) i d" by blast
  then show ?thesis
  proof cases
    case 1
    then have k: "dtype d \<in> {REG_BULL, HID_BULL}" by (simp add: emitted_by_def Let_def)
    from 1 obtain pd cd ex hv mc where s: "strength d = calcStrength pd cd ex hv mc"
      and m: "strength d \<ge> minStrength" unfolding emitted_by_def Let_def by blast
    from le_not_NaN [OF m] have "strength d \<noteq> NaN" by auto
    with calcStrength_range [of pd cd ex hv mc] s
    have r: "Fin 0 \<le> strength d \<and> strength d \<le> Fin 10" by simp
    have "\<exists>pivots i.
       (pivots = lows (findPivots cci' 5 5) \<and> dtype d \<in> {REG_BULL, HID_BULL} \<or>
        pivots = highs (findPivots cci' 5 5) \<and> dtype d \<in> {REG_BEAR, HID_BEAR}) \<and>
       1 \<le> i \<and> i < length pivots \<and>
       (let low = (dtype d \<in> {REG_BULL, HID_BULL});
            currIdx = pivots ! i;
            prevIdx = pivots ! (i - 1);
            currCCI = num_at cci' currIdx;
            prevCCI = num_at cci' prevIdx;
            currPrice = (if low then bar_l (bars ! currIdx) else bar_h (bars ! currIdx));
            prevPrice = (if low then bar_l (bars ! prevIdx) else bar_h (bars ! prevIdx));
            priceDiff = (if dtype d = HID_BEAR then (prevPrice - currPrice) / prevPrice
                         else (currPrice - prevPrice) / prevPrice);
            cciDiff = (if dtype d = REG_BULL \<or> dtype d = HID_BEAR then currCCI - prevCCI
                       else prevCCI - currCCI);
            isExtreme = (if low then currCCI < Fin (- 100) else currCCI > Fin 100);
            priceScore = Math_min (Fin 3.0) (\<bar>priceDiff\<bar> * Fin 100);
            cciScore = Math_min (Fin 3.0) (\<bar>cciDiff\<bar> / Fin 30)
        in volumeConfirmed d = (num_at volume' currIdx > num_at avgVolume' currIdx * fl 1.2) \<and>
           momentumConfirmed d = (if low then num_at momentum' currIdx > Fin 0
                                  else num_at momentum' currIdx < Fin 0) \<and>
           strength d =
             Math_min (Fin 10)
               (priceScore + cciScore
                + (if isExtreme then Fin 1.5 else Fin 0)
                + (if volumeConfirmed d then Fin 1.0 else Fin 0)
                + (if momentumConfirmed d then Fin 1.0 else Fin 0)))"
      apply (rule exI [of _ "lows (findPivots cci' 5 5)"])
      apply (rule exI [of _ i])
      using 1 k unfolding emitted_by_def calcStrength_def Let_def
      by (simp only: if_True if_False simp_thms)
    with r show ?thesis by blast
  next
    case 2
    then have k: "dtype d \<in> {REG_BEAR, HID_BEAR}" by (simp add: emitted_by_def Let_def)
    then have nk: "(dtype d \<in> {REG_BULL, HID_BULL}) = False" by auto
    from 2 obtain pd cd ex hv mc where s: "strength d = calcStrength pd cd ex hv mc"
      and m: "strength d \<ge> minStrength" unfolding emitted_by_def Let_def by blast
    from le_not_NaN [OF m] have "strength d \<noteq> NaN" by auto
    with calcStrength_range [of pd cd ex hv mc] s
    have r: "Fin 0 \<le> strength d \<and> strength d \<le> Fin 10" by simp
    have "\<exists>pivots i.
       (pivots = lows (findPivots cci' 5 5) \<and> dtype d \<in> {REG_BULL, HID_BULL} \<or>
        pivots = highs (findPivots cci' 5 5) \<and> dtype d \<in> {REG_BEAR, HID_BEAR}) \<and>
       1 \<le> i \<and> i < length pivots \<and>
       (let low = (dtype d \<in> {REG_BULL, HID_BULL});
            currIdx = pivots ! i;
            prevIdx = pivots ! (i - 1);
            currCCI = num_at cci' currIdx;
            prevCCI = num_at cci' prevIdx;
            currPrice = (if low then bar_l (bars ! currIdx) else bar_h (bars ! currIdx));
            prevPrice = (if low then bar_l (bars ! prevIdx) else bar_h (bars ! prevIdx));
            priceDiff = (if dtype d = HID_BEAR then (prevPrice - currPrice) / prevPrice
                         else (currPrice - prevPrice) / prevPrice);
            cciDiff = (if dtype d = REG_BULL \<or> dtype d = HID_BEAR then currCCI - prevCCI
                       else prevCCI - currCCI);
            isExtreme = (if low then currCCI < Fin (- 100) else currCCI > Fin 100);
            priceScore = Math_min (Fin 3.0) (\<bar>priceDiff\<bar> * Fin 100);
            cciScore = Math_min (Fin 3.0) (\<bar>cciDiff\<bar> / Fin 30)
        in volumeConfirmed d = (num_at volume' currIdx > num_at avgVolume' currIdx * fl 1.2) \<and>
           momentumConfirmed d = (if low then num_at momentum' currIdx > Fin 0
                                  else num_at momentum' currIdx < Fin 0) \<and>
           strength d =
             Math_min (Fin 10)
               (priceScore + cciScore
                + (if isExtreme then Fin 1.5 else Fin 0)
                + (if volumeConfirmed d then Fin 1.0 else Fin 0)
                + (if momentumConfirmed d then Fin 1.0 else Fin 0)))"
      apply (rule exI [of _ "highs (findPivots cci' 5 5)"])
      apply (rule exI [of _ i])
      using 2 k unfolding emitted_by_def calcStrength_def Let_def nk
      by (simp only: if_True if_False simp_thms)
    with r show ?thesis by blast
  qed
qed

theorem strength_in_range_witness:
  "detectDivergences (ex_bars 17) (ex_cci 17) (replicate 17 (Fin 1)) (replicate 17 (Fin 2))
     (replicate 17 (Fin 1)) (Fin 3) = Inr [ex_divergence] \<and>
   Fin 0 \<le> strength ex_divergence \<and> strength ex_divergence \<le> Fin 10"
  using strength_in_range [OF ex_detect, of ex_divergence] ex_detect by simp

text \<open>
  C4. For every input to \<^verbatim>\<open>detectDivergences\<close> on which it returns, every returned
  divergence comes from a pair of adjacent pivot indices (previous, current) of the same
  kind, lows for the bullish types and highs for the bearish ones, whose index difference
  lies in \<open>[5, 60]\<close>, and carries the timestamp and price of the bar at the current
  pivot; for an adjacent pair whose gap is outside that interval the body of either loop
  leaves the list of divergences unchanged.
\<close>

theorem divergence_pair_gap:
  "(\<forall>ds d. detectDivergences bars cci' momentum' volume' avgVolume' minStrength = Inr ds \<and> d \<in> set ds \<longrightarrow>
      (\<exists>i. 1 \<le> i \<and> i < length (lows (findPivots cci' 5 5)) \<and>
           5 \<le> int (lows (findPivots cci' 5 5) ! i) - int (lows (findPivots cci' 5 5) ! (i - 1)) \<and>
           int (lows (findPivots cci' 5 5) ! i) - int (lows (findPivots cci' 5 5) ! (i - 1)) \<le> 60 \<and>
           dtype d \<in> {REG_BULL, HID_BULL} \<and>
           timestamp d = bar_t (bars ! (lows (findPivots cci' 5 5) ! i)) \<and>
           price d = bar_l (bars ! (lows (findPivots cci' 5 5) ! i))) \<or>
      (\<exists>i. 1 \<le> i \<and> i < length (highs (findPivots cci' 5 5)) \<and>
           5 \<le> int (highs (findPivots cci' 5 5) ! i) - int (highs (findPivots cci' 5 5) ! (i - 1)) \<and>
           int (highs (findPivots cci' 5 5) ! i) - int (highs (findPivots cci' 5 5) ! (i - 1)) \<le> 60 \<and>
           dtype d \<in> {REG_BEAR, HID_BEAR} \<and>
           timestamp d = bar_t (bars ! (highs (findPivots cci' 5 5) ! i)) \<and>
           price d = bar_h (bars ! (highs (findPivots cci' 5 5) ! i)))) \<and>
   (\<forall>pivots divs i.
      int (pivots ! i) - int (pivots ! (i - 1)) < 5 \<or> int (pivots ! i) - int (pivots ! (i - 1)) > 60 \<longrightarrow>
      low_step bars cci' momentum' volume' avgVolume' minStrength pivots divs i = Inr divs \<and>
      high_step bars cci' momentum' volume' avgVolume' minStrength pivots divs i = Inr divs)"
proof (intro conjI allI impI)
  fix ds d
  assume a: "detectDivergences bars cci' momentum' volume' avgVolume' minStrength = Inr ds \<and> d \<in> set ds"
  then have "detectDivergences bars cci' momentum' volume' avgVolume' minStrength = Inr ds"
    and "d \<in> set ds" by simp_all
  from detect_emits [OF this]
  show "(\<exists>i. 1 \<le> i \<and> i < length (lows (findPivots cci' 5 5)) \<and>
           5 \<le> int (lows (findPivots cci' 5 5) ! i) - int (lows (findPivots cci' 5 5) ! (i - 1)) \<and>
           int (lows (findPivots cci' 5 5) ! i) - int (lows (findPivots cci' 5 5) ! (i - 1)) \<le> 60 \<and>
           dtype d \<in> {REG_BULL, HID_BULL} \<and>
           timestamp d = bar_t (bars ! (lows (findPivots cci' 5 5) ! i)) \<and>
           price d = bar_l (bars ! (lows (findPivots cci' 5 5) ! i))) \<or>
      (\<exists>i. 1 \<le> i \<and> i < length (highs (findPivots cci' 5 5)) \<and>
           5 \<le> int (highs (findPivots cci' 5 5) ! i) - int (highs (findPivots cci' 5 5) ! (i - 1)) \<and>
           int (highs (findPivots cci' 5 5) ! i) - int (highs (findPivots cci' 5 5) ! (i - 1)) \<le> 60 \<and>
           dtype d \<in> {REG_BEAR, HID_BEAR} \<and>
           timestamp d = bar_t (bars ! (highs (findPivots cci' 5 5) ! i)) \<and>
           price d = bar_h (bars ! (highs (findPivots cci' 5 5) ! i)))"
    unfolding emitted_by_def Let_def by (simp only: if_True if_False) blast
next
  fix pivots :: "nat list" and divs i
  assume "int (pivots ! i) - int (pivots ! (i - 1)) < 5 \<or> int (pivots ! i) - int (pivots ! (i - 1)) > 60"
  then show "low_step bars cci' momentum' volume' avgVolume' minStrength pivots divs i = Inr divs"
    and "high_step bars cci' momentum' volume' avgVolume' minStrength pivots divs i = Inr divs"
    by (rule low_step_skip, rule high_step_skip)
qed

theorem divergence_pair_gap_witness:
  "(\<exists>i. 1 \<le> i \<and> i < length (lows (findPivots (ex_cci 17) 5 5)) \<and>
        5 \<le> int (lows (findPivots (ex_cci 17) 5 5) ! i) - int (lows (findPivots (ex_cci 17) 5 5) ! (i - 1)) \<and>
        int (lows (findPivots (ex_cci 17) 5 5) ! i) - int (lows (findPivots (ex_cci 17) 5 5) ! (i - 1)) \<le> 60 \<and>
        timestamp ex_divergence = bar_t (ex_bars 17 ! (lows (findPivots (ex_cci 17) 5 5) ! i))) \<and>
   high_step (ex_bars 17) (ex_cci 17) (replicate 17 (Fin 1)) (replicate 17 (Fin 2))
     (replicate 17 (Fin 1)) (Fin 3) [6, 7, 8, 9, 10] [] 1 = Inr []"
proof -
  note t = divergence_pair_gap [of "ex_bars 17" "ex_cci 17" "replicate 17 (Fin 1)"
      "replicate 17 (Fin 2)" "replicate 17 (Fin 1)" "Fin 3"]
  have k: "dtype ex_divergence = REG_BULL" by (simp add: ex_divergence_def)
  from t [THEN conjunct1, rule_format, of "[ex_divergence]" ex_divergence] ex_detect k
  have a: "\<exists>i. 1 \<le> i \<and> i < length (lows (findPivots (ex_cci 17) 5 5)) \<and>
        5 \<le> int (lows (findPivots (ex_cci 17) 5 5) ! i) - int (lows (findPivots (ex_cci 17) 5 5) ! (i - 1)) \<and>
        int (lows (findPivots (ex_cci 17) 5 5) ! i) - int (lows (findPivots (ex_cci 17) 5 5) ! (i - 1)) \<le> 60 \<and>
        timestamp ex_divergence = bar_t (ex_bars 17 ! (lows (findPivots (ex_cci 17) 5 5) ! i))"
    by auto
  from t [THEN conjunct2, rule_format, of "[6, 7, 8, 9, 10]" 1 "[]"]
  have b: "high_step (ex_bars 17) (ex_cci 17) (replicate 17 (Fin 1)) (replicate 17 (Fin 2))
     (replicate 17 (Fin 1)) (Fin 3) [6, 7, 8, 9, 10] [] 1 = Inr []" by simp
  from a b show ?thesis by blast
qed

text \<open>
  C5. For every non-empty bar sequence of length \<open>n\<close> on which \<^verbatim>\<open>detectDivergences\<close>
  returns, every returned divergence has a timestamp greater than or equal to the
  timestamp of the bar at index \<open>max(0, n - 15)\<close>, and the returned list is the list
  collected by the two pivot loops with the divergences of earlier timestamps removed.
\<close>

theorem recency_filter:
  assumes "bars \<noteq> []"
    and "detectDivergences bars cci' momentum' volume' avgVolume' minStrength = Inr ds"
  shows "(\<forall>d\<in>set ds. timestamp d \<ge> bar_t (bars ! nat (max 0 (int (length bars) - 15)))) \<and>
         (\<exists>all. collect bars cci' momentum' volume' avgVolume' minStrength = Inr all \<and>
            ds = filter (\<lambda>d. timestamp d \<ge> bar_t (bars ! nat (max 0 (int (length bars) - 15)))) all)"
  using detect_filter [OF assms(2)] recentTimestamp_nonempty [OF assms(1)] by auto

theorem recency_filter_witness:
  "detectDivergences (ex_bars 17) (ex_cci 17) (replicate 17 (Fin 1)) (replicate 17 (Fin 2))
     (replicate 17 (Fin 1)) (Fin 3) = Inr [ex_divergence] \<and>
   timestamp ex_divergence \<ge> bar_t (ex_bars 17 ! nat (max 0 (int (length (ex_bars 17)) - 15)))"
proof -
  have n: "ex_bars 17 \<noteq> []" by (simp add: ex_bars_def)
  from recency_filter [OF n ex_detect] ex_detect show ?thesis by simp
qed

end
